theory Spec2Isabelle
  imports Main
begin

section \<open>Data model\<close>

text \<open>
  The plugin \<^verbatim>\<open>aban/main.py\<close> keeps each managed group as a dictionary
  \<^verbatim>\<open>{"id": dialog.id, "title": dialog.title}\<close>.  The key \<^verbatim>\<open>id\<close> is written
  \<open>gid\<close> here, since \<open>id\<close> is the identity function of HOL.
\<close>

record scope =
  gid :: int
  title :: string

text \<open>A raised Python \<^verbatim>\<open>Exception\<close>; the number stands for its message.\<close>

datatype exn = Exn nat

section \<open>The batch dispatcher: \<^verbatim>\<open>batch_ban_operation\<close>\<close>

definition BATCH_SIZE :: nat where
  "BATCH_SIZE = 20"

text \<open>
  The two reason strings the source synthesizes, as UTF-8 bytes:
  \<^verbatim>\<open>" (<yi chang>)"\<close> appended to a title, and \<^verbatim>\<open>"<wei zhi qun zu> (<yi chang>)"\<close>
  for a result that is itself an exception.
\<close>

definition exc_suffix :: string where
  "exc_suffix = [CHR 0x20, CHR 0x28, CHR 0xE5, CHR 0xBC, CHR 0x82, CHR 0xE5, CHR 0xB8, CHR 0xB8, CHR 0x29]"

definition unknown_group :: string where
  "unknown_group =
     [CHR 0xE6, CHR 0x9C, CHR 0xAA, CHR 0xE7, CHR 0x9F, CHR 0xA5,
      CHR 0xE7, CHR 0xBE, CHR 0xA4, CHR 0xE7, CHR 0xBB, CHR 0x84] @ exc_suffix"

text \<open>
  \<open>act g\<close> is the awaited call \<^verbatim>\<open>safe_ban_action(client, group["id"], user_id, rights)\<close>
  for the group \<open>g\<close>: \<open>Inr b\<close> when it returns \<open>b\<close>, \<open>Inl e\<close> when it raises \<open>e\<close>.
\<close>

type_synonym action = "scope \<Rightarrow> exn + bool"

text \<open>
  \<^verbatim>\<open>
  async def process_group(group):
      try:
          if await safe_ban_action(client, group["id"], user_id, rights):
              return True, None
          else:
              return False, group["title"]
      except Exception as e:
          logs.error(...)
          return False, f"{group['title']} (<yi chang>)"
  \<close>
\<close>

definition process_group :: "action \<Rightarrow> scope \<Rightarrow> bool \<times> string option" where
  "process_group act g =
     (case act g of
        Inr ok \<Rightarrow> (if ok then (True, None) else (False, Some (title g)))
      | Inl e \<Rightarrow> (False, Some (title g @ exc_suffix)))"

text \<open>
  \<^verbatim>\<open>asyncio.gather(*[process_group(g) for g in batch], return_exceptions=True)\<close>
  gives one entry for each member of the batch, in the order of the batch: the value a
  member returned, or the exception it raised.  \<open>process_group\<close> catches every
  \<^verbatim>\<open>Exception\<close>, so each entry is a returned pair.
\<close>

type_synonym gather_result = "exn + bool \<times> string option"

definition gather_batch :: "action \<Rightarrow> scope list \<Rightarrow> gather_result list" where
  "gather_batch act batch = map (\<lambda>g. Inr (process_group act g)) batch"

text \<open>The three running values \<^verbatim>\<open>success\<close>, \<^verbatim>\<open>failed\<close>, \<^verbatim>\<open>failed_groups\<close>.\<close>

type_synonym tally = "nat \<times> nat \<times> string list"

text \<open>
  \<^verbatim>\<open>
  if isinstance(result, Exception):
      failed += 1
      failed_groups.append("<wei zhi qun zu> (<yi chang>)")
  elif result[0]:
      success += 1
  else:
      failed += 1
      if result[1]:
          failed_groups.append(result[1])
  \<close>
  \<^verbatim>\<open>if result[1]\<close> is false for \<^verbatim>\<open>None\<close> and for the empty string.
\<close>

fun count_result :: "gather_result \<Rightarrow> tally \<Rightarrow> tally" where
  "count_result (Inl e) (success, failed, failed_groups) =
     (success, failed + 1, failed_groups @ [unknown_group])"
| "count_result (Inr (ok, reason)) (success, failed, failed_groups) =
     (if ok then (success + 1, failed, failed_groups)
      else (success, failed + 1,
            (case reason of
               None \<Rightarrow> failed_groups
             | Some r \<Rightarrow> if r \<noteq> [] then failed_groups @ [r] else failed_groups)))"

text \<open>\<^verbatim>\<open>for result in results: ...\<close>\<close>

fun count_results :: "gather_result list \<Rightarrow> tally \<Rightarrow> tally" where
  "count_results [] t = t"
| "count_results (r # rs) t = count_results rs (count_result r t)"

text \<open>
  \<^verbatim>\<open>
  for i in range(0, len(groups), BATCH_SIZE):
      batch = groups[i : i + BATCH_SIZE]
      results = await asyncio.gather(...)
      for result in results: ...
  \<close>
\<close>

function batch_loop :: "action \<Rightarrow> scope list \<Rightarrow> nat \<Rightarrow> tally \<Rightarrow> tally" where
  "batch_loop act groups i t =
     (if i < length groups
      then batch_loop act groups (i + BATCH_SIZE)
             (count_results (gather_batch act (take BATCH_SIZE (drop i groups))) t)
      else t)"
  by pat_completeness auto
termination
  by (relation "measure (\<lambda>(act, groups, i, t). length groups - i)") (auto simp: BATCH_SIZE_def)

definition batch_ban_operation :: "action \<Rightarrow> scope list \<Rightarrow> tally" where
  "batch_ban_operation act groups = batch_loop act groups 0 (0, 0, [])"

subsection \<open>What one group adds to the tally\<close>

text \<open>The reason string a group leaves in \<^verbatim>\<open>failed_groups\<close>, if any.\<close>

definition failure_reason :: "action \<Rightarrow> scope \<Rightarrow> string list" where
  "failure_reason act g =
     (case act g of
        Inr ok \<Rightarrow> (if ok \<or> title g = [] then [] else [title g])
      | Inl e \<Rightarrow> [title g @ exc_suffix])"

definition succeeds :: "action \<Rightarrow> scope \<Rightarrow> bool" where
  "succeeds act g = (act g = Inr True)"

declare batch_loop.simps [simp del]

text \<open>The groups of a dispatch whose action did not return true, in input order.\<close>

definition failing :: "action \<Rightarrow> scope list \<Rightarrow> scope list" where
  "failing act groups = filter (\<lambda>g. \<not> succeeds act g) groups"

subsection \<open>Concrete dispatches\<close>

text \<open>
  Twenty-five groups with the ids 1 to 25.  In \<open>groups25\<close> every group has a title; in
  \<open>untitled25\<close> the groups 3, 8, 19, 21 and 25 have the empty title.  The action
  \<open>five_fail\<close> returns false for exactly these five groups and true for the others.
\<close>

definition title25 :: "nat \<Rightarrow> string" where
  "title25 i =
     (if i = 3 then ''alpha'' else if i = 8 then ''beta'' else if i = 19 then ''gamma''
      else if i = 21 then ''delta'' else if i = 25 then ''epsilon'' else ''chat'')"

definition groups25 :: "scope list" where
  "groups25 = map (\<lambda>i. \<lparr>gid = int i, title = title25 i\<rparr>) [1..<26]"

definition untitled25 :: "scope list" where
  "untitled25 =
     map (\<lambda>i. \<lparr>gid = int i, title = (if i \<in> {3, 8, 19, 21, 25} then [] else ''chat'')\<rparr>) [1..<26]"

definition five_fail :: action where
  "five_fail g = Inr (gid g \<notin> {3, 8, 19, 21, 25})"

section \<open>The remote client\<close>

text \<open>
  \<^verbatim>\<open>ChatBannedRights\<close>: the fields the callers set.  \<open>view_messages\<close> is the flag
  \<^verbatim>\<open>getattr(rights, "view_messages", False)\<close> reads.
\<close>

record chat_banned_rights =
  until_date :: "int option"
  view_messages :: bool
  send_messages :: bool

text \<open>
  A Telethon entity, with the attributes the plugin reads.  \<open>access_hash = None\<close> stands
  for an entity without the attribute or with the value \<^verbatim>\<open>None\<close>; \<open>broadcast = None\<close> for
  an entity without the attribute (a user).
\<close>

record entity =
  ent_id :: int
  access_hash :: "int option"
  broadcast :: "bool option"

datatype input_peer = InputPeerUser int int | InputPeerChannel int int

text \<open>The three ways the plugin names the target in a request.\<close>

datatype participant_ref = ById int | ByEntity entity | ByInputPeer input_peer

record admin_rights =
  ban_users :: bool

text \<open>
  The answer to \<^verbatim>\<open>GetParticipantRequest\<close>: \<open>peer_channel_id\<close> is
  \<^verbatim>\<open>participant.participant.peer.channel_id\<close> when both attributes exist, \<open>admin\<close> is
  \<^verbatim>\<open>getattr(part.participant, "admin_rights", None)\<close>, \<open>users\<close> is \<^verbatim>\<open>res.users\<close>.
\<close>

record channel_participant =
  peer_channel_id :: "int option"
  admin :: "admin_rights option"
  users :: "entity list"

record dialog =
  dialog_id :: int
  dialog_title :: string
  is_group :: bool
  is_channel :: bool

datatype request =
    EditBannedRequest int participant_ref chat_banned_rights
  | GetEntity int
  | GetParticipantRequest int int
  | DeleteParticipantHistoryRequest int participant_ref
  | GetMe
  | IterDialogs
  | IterParticipants int nat
  | MoreParticipants int

text \<open>
  The client is outside the plugin.  Each kind of call is a function from the requests
  sent so far and the arguments of the call to its outcome, so that the same request may
  be answered differently at different times.  A call that raises gives \<open>Inl e\<close> (or
  \<open>Some e\<close> where the plugin ignores the value a call returns).  An iteration gives
  the items it yields and the exception that ends it, if one does; the participants of a
  group come in pages, each page fetched by a request of its own.  \<open>clock\<close> is the
  reading of \<^verbatim>\<open>time.time()\<close>.
\<close>

record client =
  edit_banned :: "request list \<Rightarrow> int \<Rightarrow> participant_ref \<Rightarrow> chat_banned_rights \<Rightarrow> exn option"
  get_entity :: "request list \<Rightarrow> int \<Rightarrow> exn + entity"
  get_participant :: "request list \<Rightarrow> int \<Rightarrow> int \<Rightarrow> exn + channel_participant"
  delete_participant_history :: "request list \<Rightarrow> int \<Rightarrow> participant_ref \<Rightarrow> exn option"
  get_me :: "request list \<Rightarrow> exn + int"
  iter_dialogs :: "request list \<Rightarrow> dialog list \<times> exn option"
  iter_participants :: "request list \<Rightarrow> int \<Rightarrow> nat \<Rightarrow> entity list list \<times> exn option"
  clock :: "request list \<Rightarrow> int"

text \<open>What \<^verbatim>\<open>logs.error\<close>, \<^verbatim>\<open>logs.info\<close> and \<^verbatim>\<open>logs.warning\<close> are called with.\<close>

datatype log_entry =
    GetEntityError int exn
  | Method1Failed exn
  | Method2Failed exn
  | Method3Failed exn
  | Method4Failed exn
  | BannedChannelIdentity int
  | DeletedAllMessages int int
  | Method1DeleteFailed exn
  | DeletedAllMessagesMethod2 int int
  | Method2DeleteFailed exn
  | CouldNotDeleteMessages int
  | GroupsRefreshed nat
  | GetGroupsError exn
  | ScanGroupError string int exn

text \<open>The requests sent and the lines logged so far.\<close>

record world =
  calls :: "request list"
  logs :: "log_entry list"

definition sent :: "request \<Rightarrow> world \<Rightarrow> world" where
  "sent r w = w\<lparr>calls := calls w @ [r]\<rparr>"

definition logged :: "log_entry \<Rightarrow> world \<Rightarrow> world" where
  "logged l w = w\<lparr>logs := logs w @ [l]\<rparr>"

definition world0 :: world where
  "world0 = \<lparr>calls = [], logs = []\<rparr>"

text \<open>\<^verbatim>\<open>await client(EditBannedRequest(chat_id, who, rights))\<close>\<close>

definition request_edit ::
  "client \<Rightarrow> int \<Rightarrow> participant_ref \<Rightarrow> chat_banned_rights \<Rightarrow> world \<Rightarrow> exn option \<times> world" where
  "request_edit cl chat_id who r w =
     (edit_banned cl (calls w) chat_id who r, sent (EditBannedRequest chat_id who r) w)"

text \<open>\<^verbatim>\<open>await client(GetParticipantRequest(chat_id, user_id))\<close>\<close>

definition request_participant ::
  "client \<Rightarrow> int \<Rightarrow> int \<Rightarrow> world \<Rightarrow> (exn + channel_participant) \<times> world" where
  "request_participant cl chat_id user_id w =
     (get_participant cl (calls w) chat_id user_id, sent (GetParticipantRequest chat_id user_id) w)"

text \<open>\<^verbatim>\<open>await client(DeleteParticipantHistoryRequest(channel=chat_id, participant=who))\<close>\<close>

definition request_delete ::
  "client \<Rightarrow> int \<Rightarrow> participant_ref \<Rightarrow> world \<Rightarrow> exn option \<times> world" where
  "request_delete cl chat_id who w =
     (delete_participant_history cl (calls w) chat_id who,
      sent (DeleteParticipantHistoryRequest chat_id who) w)"

text \<open>
  \<^verbatim>\<open>safe_get_entity(client, target)\<close> for an integer target, which is what
  \<^verbatim>\<open>safe_ban_action\<close> passes: \<^verbatim>\<open>str(target).lstrip("-").isdigit()\<close> holds, the call is
  \<^verbatim>\<open>client.get_entity(int(target))\<close>, and an exception is logged and becomes \<^verbatim>\<open>None\<close>.
\<close>

definition safe_get_entity :: "client \<Rightarrow> int \<Rightarrow> world \<Rightarrow> entity option \<times> world" where
  "safe_get_entity cl target w =
     (case get_entity cl (calls w) target of
        Inr e \<Rightarrow> (Some e, sent (GetEntity target) w)
      | Inl x \<Rightarrow> (None, logged (GetEntityError target x) (sent (GetEntity target) w)))"

section \<open>The fallback executor: \<^verbatim>\<open>safe_ban_action\<close>\<close>

text \<open>
  Method 4, the block under \<^verbatim>\<open>if not ban_success:\<close>.  The entity is resolved again;
  \<^verbatim>\<open>user_entity.access_hash\<close> must be present and not zero; a broadcast entity is
  addressed as \<^verbatim>\<open>InputPeerChannel\<close>, any other as \<^verbatim>\<open>InputPeerUser\<close>.
\<close>

definition ban_method4 ::
  "client \<Rightarrow> int \<Rightarrow> int \<Rightarrow> chat_banned_rights \<Rightarrow> world \<Rightarrow> bool \<times> world" where
  "ban_method4 cl chat_id user_id r w =
     (case safe_get_entity cl user_id w of
        (None, w1) \<Rightarrow> (False, w1)
      | (Some user_entity, w1) \<Rightarrow>
          (case access_hash user_entity of
             None \<Rightarrow> (False, w1)
           | Some h \<Rightarrow>
               if h = 0 then (False, w1)
               else
                 let input_peer =
                       (if broadcast user_entity = Some True then InputPeerChannel user_id h
                        else InputPeerUser user_id h)
                 in (case request_edit cl chat_id (ByInputPeer input_peer) r w1 of
                       (None, w2) \<Rightarrow> (True, w2)
                     | (Some e4, w2) \<Rightarrow> (False, logged (Method4Failed e4) w2))))"

text \<open>
  Method 3: look the participant up and, when it has a peer with a channel id, ban that
  channel id.  Without such a peer nothing is sent and nothing is logged.
\<close>

definition ban_method3 ::
  "client \<Rightarrow> int \<Rightarrow> int \<Rightarrow> chat_banned_rights \<Rightarrow> world \<Rightarrow> bool \<times> world" where
  "ban_method3 cl chat_id user_id r w =
     (case request_participant cl chat_id user_id w of
        (Inl e3, w1) \<Rightarrow> (False, logged (Method3Failed e3) w1)
      | (Inr participant, w1) \<Rightarrow>
          (case peer_channel_id participant of
             None \<Rightarrow> (False, w1)
           | Some channel_id \<Rightarrow>
               (case request_edit cl chat_id (ById channel_id) r w1 of
                  (Some e3, w2) \<Rightarrow> (False, logged (Method3Failed e3) w2)
                | (None, w2) \<Rightarrow> (True, logged (BannedChannelIdentity channel_id) w2))))"

text \<open>
  The handler of the exception of method 1.  Method 2 resolves the entity and, when
  there is one, bans by it.  Methods 3 and 4 are inside the handler of the exception of
  method 2: they run when the request of method 2 raised, and do not run when
  \<^verbatim>\<open>safe_get_entity\<close> returned \<^verbatim>\<open>None\<close>, which raises nothing.
\<close>

definition ban_after_method1 ::
  "client \<Rightarrow> int \<Rightarrow> int \<Rightarrow> chat_banned_rights \<Rightarrow> world \<Rightarrow> bool \<times> world" where
  "ban_after_method1 cl chat_id user_id r w =
     (case safe_get_entity cl user_id w of
        (None, w1) \<Rightarrow> (False, w1)
      | (Some user_entity, w1) \<Rightarrow>
          (case request_edit cl chat_id (ByEntity user_entity) r w1 of
             (None, w2) \<Rightarrow> (True, w2)
           | (Some e2, w2) \<Rightarrow>
               (case ban_method3 cl chat_id user_id r (logged (Method2Failed e2) w2) of
                  (ban_success, w3) \<Rightarrow>
                    if \<not> ban_success then ban_method4 cl chat_id user_id r w3
                    else (ban_success, w3))))"

text \<open>The first \<^verbatim>\<open>try\<close> block of \<^verbatim>\<open>safe_ban_action\<close>: method 1, then its handler.\<close>

definition ban_methods ::
  "client \<Rightarrow> int \<Rightarrow> int \<Rightarrow> chat_banned_rights \<Rightarrow> world \<Rightarrow> bool \<times> world" where
  "ban_methods cl chat_id user_id r w =
     (case request_edit cl chat_id (ById user_id) r w of
        (None, w1) \<Rightarrow> (True, w1)
      | (Some e1, w1) \<Rightarrow> ban_after_method1 cl chat_id user_id r (logged (Method1Failed e1) w1))"

text \<open>
  The block under \<^verbatim>\<open>if getattr(rights, "view_messages", False):\<close>, which deletes the
  messages of the user: by id, and when that raises, by the resolved entity.
\<close>

definition delete_user_messages :: "client \<Rightarrow> int \<Rightarrow> int \<Rightarrow> world \<Rightarrow> world" where
  "delete_user_messages cl chat_id user_id w =
     (case request_delete cl chat_id (ById user_id) w of
        (None, w1) \<Rightarrow> logged (DeletedAllMessages user_id chat_id) w1
      | (Some e1, w1) \<Rightarrow>
          (case safe_get_entity cl user_id (logged (Method1DeleteFailed e1) w1) of
             (None, w2) \<Rightarrow> w2
           | (Some user_entity, w2) \<Rightarrow>
               (case request_delete cl chat_id (ByEntity user_entity) w2 of
                  (None, w3) \<Rightarrow> logged (DeletedAllMessagesMethod2 user_id chat_id) w3
                | (Some e2, w3) \<Rightarrow>
                    logged (CouldNotDeleteMessages user_id) (logged (Method2DeleteFailed e2) w3))))"

text \<open>
  \<^verbatim>\<open>safe_ban_action(client, chat_id, user_id, rights)\<close>.  Every exception a request
  raises is caught by the handler next to it, so the outer handler, which returns
  \<^verbatim>\<open>False\<close>, is never reached and the function returns \<^verbatim>\<open>ban_success\<close>.
\<close>

definition safe_ban_action ::
  "client \<Rightarrow> int \<Rightarrow> int \<Rightarrow> chat_banned_rights \<Rightarrow> world \<Rightarrow> bool \<times> world" where
  "safe_ban_action cl chat_id user_id r w =
     (case ban_methods cl chat_id user_id r w of
        (ban_success, w1) \<Rightarrow>
          (ban_success,
           if view_messages r then delete_user_messages cl chat_id user_id w1 else w1))"

subsection \<open>Concrete clients\<close>

definition ban_rights :: chat_banned_rights where
  "ban_rights = \<lparr>until_date = None, view_messages = True, send_messages = True\<rparr>"

definition mute_rights :: chat_banned_rights where
  "mute_rights = \<lparr>until_date = None, view_messages = False, send_messages = True\<rparr>"

text \<open>
  A target that posts under the channel 4242: the requests by the target's own id are
  refused, the id does not resolve to an entity, the participant lookup reports the peer
  channel 4242, and a request for that channel id is accepted.
\<close>

definition persona_client :: client where
  "persona_client =
     \<lparr>edit_banned = (\<lambda>sofar chat_id who r. if who = ById 4242 then None else Some (Exn 1)),
      get_entity = (\<lambda>sofar target. Inl (Exn 2)),
      get_participant =
        (\<lambda>sofar chat_id user_id. Inr \<lparr>peer_channel_id = Some 4242, admin = None, users = []\<rparr>),
      delete_participant_history = (\<lambda>sofar chat_id who. None),
      get_me = (\<lambda>sofar. Inr 1),
      iter_dialogs = (\<lambda>sofar. ([], None)),
      iter_participants = (\<lambda>sofar chat_id limit. ([], None)),
      clock = (\<lambda>sofar. 1000)\<rparr>"

text \<open>A client that accepts every rights change and refuses every deletion of history.\<close>

definition purge_refusing_client :: client where
  "purge_refusing_client =
     \<lparr>edit_banned = (\<lambda>sofar chat_id who r. None),
      get_entity = (\<lambda>sofar target. Inr \<lparr>ent_id = target, access_hash = Some 9, broadcast = None\<rparr>),
      get_participant = (\<lambda>sofar chat_id user_id. Inl (Exn 3)),
      delete_participant_history = (\<lambda>sofar chat_id who. Some (Exn 4)),
      get_me = (\<lambda>sofar. Inr 1),
      iter_dialogs = (\<lambda>sofar. ([], None)),
      iter_participants = (\<lambda>sofar chat_id limit. ([], None)),
      clock = (\<lambda>sofar. 1000)\<rparr>"

section \<open>The cache of managed groups: \<^verbatim>\<open>get_managed_groups\<close>\<close>

text \<open>\<^verbatim>\<open>CACHE_DURATION = None\<close>: the cache never expires.\<close>

definition CACHE_DURATION :: "int option" where
  "CACHE_DURATION = None"

text \<open>
  \<^verbatim>\<open>_CACHE["groups"]\<close> without its lock, which belongs to the tasks and is part of the
  state of the scheduler below.
\<close>

record group_cache =
  data :: "scope list"
  timestamp :: int

definition empty_cache :: group_cache where
  "empty_cache = \<lparr>data = [], timestamp = 0\<rparr>"

text \<open>
  \<^verbatim>\<open>grp_cache["data"] and (CACHE_DURATION is None or (now - grp_cache["timestamp"] < CACHE_DURATION))\<close>:
  an empty list counts as no cache.
\<close>

definition cache_hit :: "int \<Rightarrow> group_cache \<Rightarrow> bool" where
  "cache_hit now c =
     (data c \<noteq> [] \<and> (case CACHE_DURATION of None \<Rightarrow> True | Some d \<Rightarrow> now - timestamp c < d))"

text \<open>
  \<^verbatim>\<open>
  async def check_group(dialog):
      try:
          part = await client(GetParticipantRequest(dialog.id, me.id))
          rights = getattr(part.participant, "admin_rights", None)
          if rights and rights.ban_users:
              return {"id": dialog.id, "title": dialog.title}
      except Exception:
          pass
      return None
  \<close>
\<close>

definition check_group :: "client \<Rightarrow> int \<Rightarrow> dialog \<Rightarrow> world \<Rightarrow> scope option \<times> world" where
  "check_group cl me d w =
     (case request_participant cl (dialog_id d) me w of
        (Inr part, w1) \<Rightarrow>
          (case admin part of
             Some rights \<Rightarrow>
               if ban_users rights then (Some \<lparr>gid = dialog_id d, title = dialog_title d\<rparr>, w1)
               else (None, w1)
           | None \<Rightarrow> (None, w1))
      | (Inl e, w1) \<Rightarrow> (None, w1))"

text \<open>
  \<^verbatim>\<open>asyncio.gather(*[check_group(d) for d in batch], return_exceptions=True)\<close>: the
  members send their requests in the order of the batch, and the results come back in
  that order.  \<open>check_group\<close> raises nothing, so no result is an exception.
\<close>

fun check_batch :: "client \<Rightarrow> int \<Rightarrow> dialog list \<Rightarrow> world \<Rightarrow> scope option list \<times> world" where
  "check_batch cl me [] w = ([], w)"
| "check_batch cl me (d # ds) w =
     (case check_group cl me d w of
        (r, w1) \<Rightarrow> (case check_batch cl me ds w1 of (rs, w2) \<Rightarrow> (r # rs, w2)))"

text \<open>
  \<^verbatim>\<open>
  for i in range(0, len(dialogs), 10):
      batch = dialogs[i : i + 10]
      results = await asyncio.gather(...)
      groups.extend([r for r in results if r and not isinstance(r, Exception)])
  \<close>
\<close>

function check_batches ::
  "client \<Rightarrow> int \<Rightarrow> dialog list \<Rightarrow> nat \<Rightarrow> scope list \<Rightarrow> world \<Rightarrow> scope list \<times> world" where
  "check_batches cl me dialogs i groups w =
     (if i < length dialogs
      then (case check_batch cl me (take 10 (drop i dialogs)) w of
              (results, w1) \<Rightarrow>
                check_batches cl me dialogs (i + 10) (groups @ [g. Some g \<leftarrow> results]) w1)
      else (groups, w))"
  by pat_completeness auto
termination
  by (relation "measure (\<lambda>(cl, me, dialogs, i, groups, w). length dialogs - i)") auto

declare check_batches.simps [simp del]

text \<open>
  The refresh after \<^verbatim>\<open>me = await client.get_me()\<close> was sent, given its outcome: collect
  the dialogs that are groups or channels, check them in batches.  An exception of
  \<^verbatim>\<open>get_me\<close> or of the iteration over the dialogs leaves the \<^verbatim>\<open>try\<close> block.
\<close>

definition refresh_after_me :: "client \<Rightarrow> exn + int \<Rightarrow> world \<Rightarrow> (exn + scope list) \<times> world" where
  "refresh_after_me cl me_result w =
     (case me_result of
        Inl e \<Rightarrow> (Inl e, w)
      | Inr me \<Rightarrow>
          (case iter_dialogs cl (calls w) of
             (yielded, Some e) \<Rightarrow> (Inl e, sent IterDialogs w)
           | (yielded, None) \<Rightarrow>
               (case check_batches cl me (filter (\<lambda>d. is_group d \<or> is_channel d) yielded) 0 []
                       (sent IterDialogs w) of
                  (groups, w1) \<Rightarrow> (Inr groups, w1))))"

text \<open>One whole refresh: \<^verbatim>\<open>get_me\<close>, the dialogs, the checks.\<close>

definition refresh_groups :: "client \<Rightarrow> world \<Rightarrow> (exn + scope list) \<times> world" where
  "refresh_groups cl w = refresh_after_me cl (get_me cl (calls w)) (sent GetMe w)"

text \<open>
  The end of a refresh.  On success the cache is overwritten and the groups are
  returned; an exception is logged and the function returns \<^verbatim>\<open>[]\<close>, the cache as it
  was.
\<close>

definition store_groups ::
  "client \<Rightarrow> (exn + scope list) \<times> world \<Rightarrow> group_cache \<Rightarrow> scope list \<times> group_cache \<times> world" where
  "store_groups cl outcome c =
     (case outcome of
        (Inr groups, w1) \<Rightarrow>
          (groups, c\<lparr>data := groups, timestamp := clock cl (calls w1)\<rparr>,
           logged (GroupsRefreshed (length groups)) w1)
      | (Inl e, w1) \<Rightarrow> ([], c, logged (GetGroupsError e) w1))"

text \<open>
  \<^verbatim>\<open>get_managed_groups(client)\<close> run by one task with no other task in between: the
  lock is free when it is reached, and the cache read under the lock is the cache read
  before it.
\<close>

definition get_managed_groups ::
  "client \<Rightarrow> group_cache \<Rightarrow> world \<Rightarrow> scope list \<times> group_cache \<times> world" where
  "get_managed_groups cl c w =
     (if cache_hit (clock cl (calls w)) c then (data c, c, w)
      else if cache_hit (clock cl (calls w)) c then (data c, c, w)
      else store_groups cl (refresh_groups cl w) c)"

text \<open>
  The answers the checks of a list of dialogs receive, one after the other: each request
  is answered on the requests sent before it.
\<close>

fun probe_answers :: "client \<Rightarrow> int \<Rightarrow> request list \<Rightarrow> dialog list \<Rightarrow> (exn + channel_participant) list" where
  "probe_answers cl me sofar [] = []"
| "probe_answers cl me sofar (d # ds) =
     get_participant cl sofar (dialog_id d) me
       # probe_answers cl me (sofar @ [GetParticipantRequest (dialog_id d) me]) ds"

text \<open>An answer that reports a role with the right to ban.\<close>

definition reports_ban_rights :: "exn + channel_participant \<Rightarrow> bool" where
  "reports_ban_rights a =
     (case a of
        Inl e \<Rightarrow> False
      | Inr part \<Rightarrow> (case admin part of None \<Rightarrow> False | Some rights \<Rightarrow> ban_users rights))"

definition scope_of :: "dialog \<Rightarrow> scope" where
  "scope_of d = \<lparr>gid = dialog_id d, title = dialog_title d\<rparr>"

text \<open>The dialogs of a list whose check was answered with the right to ban.\<close>

definition moderated :: "client \<Rightarrow> int \<Rightarrow> request list \<Rightarrow> dialog list \<Rightarrow> dialog list" where
  "moderated cl me sofar ds =
     map fst (filter (\<lambda>(d, a). reports_ban_rights a) (zip ds (probe_answers cl me sofar ds)))"

text \<open>The requests the checks of a list of dialogs send.\<close>

definition check_requests :: "int \<Rightarrow> dialog list \<Rightarrow> request list" where
  "check_requests me ds = map (\<lambda>d. GetParticipantRequest (dialog_id d) me) ds"

subsection \<open>A concrete account\<close>

text \<open>
  Twelve dialogs with the ids 1 to 12.  Dialog 4 is a private chat, the others are groups
  (odd ids) and channels (even ids).  The check of dialog 5 raises, the account is no
  administrator in dialogs 6 and 12, an administrator without the right to ban in dialog
  7, and an administrator with the right to ban in the seven dialogs 1, 2, 3, 8, 9, 10, 11.
\<close>

definition dialog12 :: "nat \<Rightarrow> dialog" where
  "dialog12 i =
     \<lparr>dialog_id = int i, dialog_title = (if even i then ''channel'' else ''group''),
      is_group = (odd i \<and> i \<noteq> 4), is_channel = (even i \<and> i \<noteq> 4)\<rparr>"

definition dialogs12 :: "dialog list" where
  "dialogs12 = map dialog12 [1, 2, 3, 4, 5, 6, 7, 8, 9, 10, 11, 12]"

definition role12 :: "int \<Rightarrow> exn + channel_participant" where
  "role12 chat_id =
     (if chat_id = 5 then Inl (Exn 5)
      else if chat_id = 6 \<or> chat_id = 12 then Inr \<lparr>peer_channel_id = None, admin = None, users = []\<rparr>
      else if chat_id = 7
        then Inr \<lparr>peer_channel_id = None, admin = Some \<lparr>ban_users = False\<rparr>, users = []\<rparr>
      else Inr \<lparr>peer_channel_id = None, admin = Some \<lparr>ban_users = True\<rparr>, users = []\<rparr>)"

definition account12 :: client where
  "account12 =
     \<lparr>edit_banned = (\<lambda>sofar chat_id who r. None),
      get_entity = (\<lambda>sofar target. Inl (Exn 2)),
      get_participant = (\<lambda>sofar chat_id user_id. role12 chat_id),
      delete_participant_history = (\<lambda>sofar chat_id who. None),
      get_me = (\<lambda>sofar. Inr 99),
      iter_dialogs = (\<lambda>sofar. (dialogs12, None)),
      iter_participants = (\<lambda>sofar chat_id limit. ([], None)),
      clock = (\<lambda>sofar. 1000)\<rparr>"

definition scopes7 :: "scope list" where
  "scopes7 =
     [\<lparr>gid = 1, title = ''group''\<rparr>, \<lparr>gid = 2, title = ''channel''\<rparr>, \<lparr>gid = 3, title = ''group''\<rparr>,
      \<lparr>gid = 8, title = ''channel''\<rparr>, \<lparr>gid = 9, title = ''group''\<rparr>, \<lparr>gid = 10, title = ''channel''\<rparr>,
      \<lparr>gid = 11, title = ''group''\<rparr>]"

section \<open>Tasks that call \<^verbatim>\<open>get_managed_groups\<close> at the same time\<close>

text \<open>
  All tasks run on one event loop: a task runs until it awaits, and only then may another
  task run.  \<^verbatim>\<open>get_managed_groups\<close> awaits the lock (when it cannot take it at once) and
  the requests of the refresh.  A task is

  \<^item> \<open>Idle\<close>: it has not called yet;
  \<^item> \<open>AwaitLock\<close>: it found no cache and waits in \<^verbatim>\<open>async with grp_cache["lock"]\<close>;
  \<^item> \<open>AwaitMe r\<close>: it holds the lock, found no cache under it and has sent \<^verbatim>\<open>get_me\<close>,
    whose outcome is \<open>r\<close>;
  \<^item> \<open>Done groups\<close>: it has returned \<open>groups\<close>.

  While a task refreshes, the others return from the cache or wait for the lock and send
  nothing, so the requests of one refresh follow each other and the rest of the refresh
  is one step.

  The lock is an \<^verbatim>\<open>asyncio.Lock\<close>.  \<^verbatim>\<open>acquire\<close> takes the lock at once only when it is
  not locked and no task waits for it; otherwise the task joins the end of the queue
  \<open>waiters\<close>.  \<^verbatim>\<open>release\<close> unlocks and wakes the first task of the queue, which locks when
  it runs next.  A task joins the queue only while the lock is locked or the queue is not
  empty, so whenever the lock is not locked the first task of the queue is one that a
  release has woken.
\<close>

datatype task = Idle | AwaitLock | AwaitMe "exn + int" | Done "scope list"

record system =
  cache :: group_cache
  lock_held :: bool
  waiters :: "nat list"
  tasks :: "task list"
  net :: world

text \<open>
  The task \<open>i\<close> has the lock: it reads the cache again, returns it when there is one
  (the lock is released on the way out), and starts the refresh otherwise.
\<close>

definition enter_lock :: "client \<Rightarrow> nat \<Rightarrow> system \<Rightarrow> system" where
  "enter_lock cl i s =
     (if cache_hit (clock cl (calls (net s))) (cache s)
      then s\<lparr>tasks := (tasks s)[i := Done (data (cache s))]\<rparr>
      else s\<lparr>lock_held := True,
             tasks := (tasks s)[i := AwaitMe (get_me cl (calls (net s)))],
             net := sent GetMe (net s)\<rparr>)"

text \<open>
  The task \<open>i\<close> runs until it awaits again or returns.  An idle task returns the cache
  when there is one; otherwise it takes the lock when that is free and nobody waits, and
  joins the queue when not.  A waiting task runs when the lock is free and it is the
  first of the queue: it leaves the queue and has the lock.  A task inside the refresh
  ends it, stores or logs the outcome and releases the lock.  A task that has returned
  and a number that names no task change nothing.
\<close>

definition step :: "client \<Rightarrow> system \<Rightarrow> nat \<Rightarrow> system" where
  "step cl s i =
     (if i < length (tasks s)
      then (case tasks s ! i of
              Idle \<Rightarrow>
                if cache_hit (clock cl (calls (net s))) (cache s)
                then s\<lparr>tasks := (tasks s)[i := Done (data (cache s))]\<rparr>
                else if \<not> lock_held s \<and> waiters s = [] then enter_lock cl i s
                else s\<lparr>waiters := waiters s @ [i], tasks := (tasks s)[i := AwaitLock]\<rparr>
            | AwaitLock \<Rightarrow>
                (case waiters s of
                   [] \<Rightarrow> s
                 | first # rest \<Rightarrow>
                     if \<not> lock_held s \<and> first = i then enter_lock cl i (s\<lparr>waiters := rest\<rparr>)
                     else s)
            | AwaitMe me_result \<Rightarrow>
                (case store_groups cl (refresh_after_me cl me_result (net s)) (cache s) of
                   (groups, c, w) \<Rightarrow>
                     s\<lparr>cache := c, lock_held := False,
                       tasks := (tasks s)[i := Done groups], net := w\<rparr>)
            | Done groups \<Rightarrow> s)
      else s)"

text \<open>A schedule names the task that runs next, again and again.\<close>

fun run :: "client \<Rightarrow> nat list \<Rightarrow> system \<Rightarrow> system" where
  "run cl [] s = s"
| "run cl (i # sched) s = run cl sched (step cl s i)"

text \<open>
  The command \<^verbatim>\<open>refresh\<close> run by the idle task \<open>i\<close>: it empties the cache
  (\<^verbatim>\<open>data = []\<close>, \<^verbatim>\<open>timestamp = 0\<close>) and calls \<^verbatim>\<open>get_managed_groups\<close> with no await in
  between.
\<close>

definition refresh_cache :: "client \<Rightarrow> system \<Rightarrow> nat \<Rightarrow> system" where
  "refresh_cache cl s i =
     (if i < length (tasks s) \<and> tasks s ! i = Idle then step cl (s\<lparr>cache := empty_cache\<rparr>) i
      else s)"

text \<open>\<open>n\<close> tasks about to call, no cache, the lock free, nothing sent.\<close>

definition cold :: "nat \<Rightarrow> system" where
  "cold n =
     \<lparr>cache = empty_cache, lock_held = False, waiters = [], tasks = replicate n Idle,
      net = world0\<rparr>"

fun is_refreshing :: "task \<Rightarrow> bool" where
  "is_refreshing (AwaitMe r) = True"
| "is_refreshing t = False"



text \<open>The number of refreshes begun: each begins with \<^verbatim>\<open>get_me\<close>.\<close>

definition refreshes :: "system \<Rightarrow> nat" where
  "refreshes s = length (filter (\<lambda>r. r = GetMe) (calls (net s)))"

text \<open>An account with no dialogs at all: every refresh finds the empty list.\<close>

definition barren_account :: client where
  "barren_account =
     \<lparr>edit_banned = (\<lambda>sofar chat_id who r. None),
      get_entity = (\<lambda>sofar target. Inl (Exn 2)),
      get_participant = (\<lambda>sofar chat_id user_id. Inl (Exn 3)),
      delete_participant_history = (\<lambda>sofar chat_id who. None),
      get_me = (\<lambda>sofar. Inr 99),
      iter_dialogs = (\<lambda>sofar. ([], None)),
      iter_participants = (\<lambda>sofar chat_id limit. ([], None)),
      clock = (\<lambda>sofar. 1000)\<rparr>"

subsection \<open>Invariants of the scheduler\<close>










text \<open>One task about to run the command \<^verbatim>\<open>refresh\<close> on a cache that holds an old list.\<close>

definition stale_system :: system where
  "stale_system =
     \<lparr>cache = \<lparr>data = [\<lparr>gid = 77, title = ''left long ago''\<rparr>], timestamp = 5\<rparr>,
      lock_held = False, waiters = [], tasks = [Idle], net = world0\<rparr>"

text \<open>
  Two tasks on a cache without data: task 0 calls \<^verbatim>\<open>get_managed_groups\<close> and is inside the
  refresh when task 1 runs the command \<^verbatim>\<open>refresh\<close>; then task 0 and task 1 run on.
\<close>

definition refresh_meets_refresh :: system where
  "refresh_meets_refresh =
     run account12 [0, 1] (refresh_cache account12 (step account12 (cold 2) 0) 1)"




text \<open>
  The states in which the command \<^verbatim>\<open>refresh\<close> of task 1 meets a refresh of task 0: task 0
  is inside the refresh; then task 1 has run the command and task 0 has ended its
  refresh, on the account with seven groups and on the account without dialogs.
\<close>

definition busy :: "client \<Rightarrow> system" where
  "busy cl = step cl (cold 2) 0"

definition handed_over :: "client \<Rightarrow> system" where
  "handed_over cl = step cl (refresh_cache cl (busy cl) 1) 0"

section \<open>The dispatcher in time\<close>

text \<open>
  \<^verbatim>\<open>batch_ban_operation\<close> awaits in one place, \<^verbatim>\<open>await asyncio.gather(...)\<close>: it creates
  one task for each member of the chunk and runs on when all of them have finished.  The
  state between two steps of the event loop is

  \<^item> \<open>position\<close>: the value the loop variable \<^verbatim>\<open>i\<close> takes for the next chunk;
  \<^item> \<open>chunk\<close>: the chunk that was gathered last;
  \<^item> \<open>running\<close>: the positions in that chunk of the members that have not finished;
  \<^item> \<open>counted\<close>: \<^verbatim>\<open>success\<close>, \<^verbatim>\<open>failed\<close>, \<^verbatim>\<open>failed_groups\<close> before the results of
    that chunk are counted;
  \<^item> \<open>returned\<close>: whether the function has returned.
\<close>

record dispatch =
  position :: nat
  chunk :: "scope list"
  running :: "nat list"
  counted :: tally
  returned :: bool











section \<open>The racing resolver: \<^verbatim>\<open>_resolve_user_across_groups_by_id\<close>\<close>

definition PARALLEL_LIMIT :: nat where
  "PARALLEL_LIMIT = 8"

definition USE_GET_PARTICIPANT_FIRST :: bool where
  "USE_GET_PARTICIPANT_FIRST = True"

definition PER_GROUP_SCAN_LIMIT :: nat where
  "PER_GROUP_SCAN_LIMIT = 2000"

text \<open>\<^verbatim>\<open>per_limit = per_group_limit or PER_GROUP_SCAN_LIMIT\<close>\<close>

definition per_limit :: "nat option \<Rightarrow> nat" where
  "per_limit per_group_limit =
     (case per_group_limit of
        None \<Rightarrow> PER_GROUP_SCAN_LIMIT
      | Some n \<Rightarrow> if n = 0 then PER_GROUP_SCAN_LIMIT else n)"

text \<open>
  \<^verbatim>\<open>_CACHE["entities"]\<close>: the key \<^verbatim>\<open>str(uid)\<close> is written as the number itself, an item is
  \<^verbatim>\<open>{"data": user, "timestamp": time.time()}\<close>.
\<close>

record cached_entity =
  cached_data :: "entity option"
  cached_at :: int

type_synonym entity_cache = "int \<rightharpoonup> cached_entity"

text \<open>
  \<^verbatim>\<open>for u in users: if getattr(u, "id", None) == uid: ...\<close> stops at the first user with
  the id.
\<close>

definition find_user :: "int \<Rightarrow> entity list \<Rightarrow> entity option" where
  "find_user uid us = find (\<lambda>u. ent_id u = uid) us"

text \<open>
  The task of one group, \<^verbatim>\<open>probe_group(g)\<close>, between two steps of the event loop:

  \<^item> \<open>Created\<close>: \<^verbatim>\<open>asyncio.create_task\<close> has made it and it has not run;
  \<^item> \<open>AwaitSlot\<close>: it waits in \<^verbatim>\<open>async with semaphore\<close>;
  \<^item> \<open>AwaitParticipant a\<close>: it holds a slot and has sent \<^verbatim>\<open>GetParticipantRequest\<close>,
    to which the client's answer is \<open>a\<close>;
  \<^item> \<open>Scanning pages err\<close>: it holds a slot and iterates over the participants; \<open>pages\<close>
    are the pages still to come, \<open>err\<close> the exception that ends the iteration after them;
  \<^item> \<open>Finished\<close>: it has returned or was cancelled.
\<close>

datatype probe =
    Created
  | AwaitSlot
  | AwaitParticipant "exn + channel_participant"
  | Scanning "entity list list" "exn option"
  | Finished

text \<open>
  The state of one call of the resolver: the tasks, the value of the semaphore,
  \<^verbatim>\<open>found_user["val"]\<close>, \<^verbatim>\<open>done_event\<close>, what the call has returned (if it has), the cache
  of entities, and the requests and log lines so far.
\<close>

record race =
  probes :: "probe list"
  slots :: nat
  found_user :: "entity option"
  done_event :: bool
  resolved :: "entity option option"
  entities :: entity_cache
  wire :: world

text \<open>
  The start of the call, up to the first await.  An item in the cache is returned at
  once (\<^verbatim>\<open>CACHE_DURATION\<close> is \<^verbatim>\<open>None\<close>, so every item is fresh) and no task is created.
  Otherwise one task is created for each group.
\<close>

definition resolve_start :: "client \<Rightarrow> scope list \<Rightarrow> int \<Rightarrow> entity_cache \<Rightarrow> world \<Rightarrow> race" where
  "resolve_start cl groups uid ent_cache w =
     (case ent_cache uid of
        Some ent_item \<Rightarrow>
          if (case CACHE_DURATION of
                None \<Rightarrow> True
              | Some d \<Rightarrow> clock cl (calls w) - cached_at ent_item < d)
          then \<lparr>probes = [], slots = PARALLEL_LIMIT, found_user = None, done_event = False,
                resolved = Some (cached_data ent_item), entities = ent_cache, wire = w\<rparr>
          else \<lparr>probes = replicate (length groups) Created, slots = PARALLEL_LIMIT,
                found_user = None, done_event = False, resolved = None, entities = ent_cache,
                wire = w\<rparr>
      | None \<Rightarrow>
          \<lparr>probes = replicate (length groups) Created, slots = PARALLEL_LIMIT,
           found_user = None, done_event = False, resolved = None, entities = ent_cache,
           wire = w\<rparr>)"

text \<open>The task \<open>k\<close> leaves \<^verbatim>\<open>async with semaphore\<close>: the slot is given back.\<close>

definition leave :: "nat \<Rightarrow> race \<Rightarrow> race" where
  "leave k s = s\<lparr>slots := slots s + 1, probes := (probes s)[k := Finished]\<rparr>"

text \<open>\<^verbatim>\<open>found_user["val"] = u; done_event.set(); return\<close>\<close>

definition report :: "nat \<Rightarrow> entity \<Rightarrow> race \<Rightarrow> race" where
  "report k u s = leave k (s\<lparr>found_user := Some u, done_event := True\<rparr>)"

text \<open>
  The task \<open>k\<close>, holding a slot, starts \<^verbatim>\<open>async for p in client.iter_participants(group_id, limit=per_limit)\<close>.
\<close>

definition start_scan :: "client \<Rightarrow> scope list \<Rightarrow> nat \<Rightarrow> nat \<Rightarrow> race \<Rightarrow> race" where
  "start_scan cl groups limit k s =
     (case iter_participants cl (calls (wire s)) (gid (groups ! k)) limit of
        (pages, err) \<Rightarrow>
          s\<lparr>probes := (probes s)[k := Scanning pages err],
            wire := sent (IterParticipants (gid (groups ! k)) limit) (wire s)\<rparr>)"

text \<open>
  The task \<open>k\<close> gets a slot.  With \<^verbatim>\<open>done_event\<close> set it returns at once; otherwise it
  sends the lookup of the participant (\<^verbatim>\<open>USE_GET_PARTICIPANT_FIRST\<close>).
\<close>

definition enter_slot :: "client \<Rightarrow> scope list \<Rightarrow> int \<Rightarrow> nat \<Rightarrow> nat \<Rightarrow> race \<Rightarrow> race" where
  "enter_slot cl groups uid limit k s =
     (if done_event s then s\<lparr>probes := (probes s)[k := Finished]\<rparr>
      else if USE_GET_PARTICIPANT_FIRST
      then s\<lparr>slots := slots s - 1,
             probes := (probes s)
               [k := AwaitParticipant (get_participant cl (calls (wire s)) (gid (groups ! k)) uid)],
             wire := sent (GetParticipantRequest (gid (groups ! k)) uid) (wire s)\<rparr>
      else start_scan cl groups limit k (s\<lparr>slots := slots s - 1\<rparr>))"

text \<open>\<^verbatim>\<open>users_list = getattr(res, "users", None)\<close> and the search in it; an exception finds nothing.\<close>

definition answer_finds :: "int \<Rightarrow> exn + channel_participant \<Rightarrow> entity option" where
  "answer_finds uid a = (case a of Inr res \<Rightarrow> find_user uid (users res) | Inl e \<Rightarrow> None)"

text \<open>
  The answer to the lookup arrives.  A user with the id among \<^verbatim>\<open>res.users\<close> is reported;
  an exception or an answer without such a user is passed over, and then the task
  returns when \<^verbatim>\<open>done_event\<close> is set and starts the scan otherwise.
\<close>

definition on_answer ::
  "client \<Rightarrow> scope list \<Rightarrow> int \<Rightarrow> nat \<Rightarrow> nat \<Rightarrow> exn + channel_participant \<Rightarrow> race \<Rightarrow> race" where
  "on_answer cl groups uid limit k a s =
     (case answer_finds uid a of
        Some u \<Rightarrow> report k u s
      | None \<Rightarrow> if done_event s then leave k s else start_scan cl groups limit k s)"

text \<open>
  The iteration goes on.  A page arrives: a participant with the id is reported; without
  one, the task asks for more when more is to come and returns when the iteration is
  over.  When no page is left, the iteration ends, by its exception (which is logged) or
  without one.
\<close>

definition on_page ::
  "scope list \<Rightarrow> int \<Rightarrow> nat \<Rightarrow> entity list list \<Rightarrow> exn option \<Rightarrow> race \<Rightarrow> race" where
  "on_page groups uid k pages err s =
     (case pages of
        [] \<Rightarrow>
          (case err of
             None \<Rightarrow> leave k s
           | Some e \<Rightarrow>
               leave k (s\<lparr>wire := logged (ScanGroupError (title (groups ! k)) uid e) (wire s)\<rparr>))
      | page # rest \<Rightarrow>
          (case find_user uid page of
             Some p \<Rightarrow> report k p s
           | None \<Rightarrow>
               if rest = [] \<and> err = None then leave k s
               else s\<lparr>probes := (probes s)[k := Scanning rest err],
                      wire := sent (MoreParticipants (gid (groups ! k))) (wire s)\<rparr>))"

text \<open>Whether a task holds a slot of the semaphore.\<close>

fun holds_slot :: "probe \<Rightarrow> bool" where
  "holds_slot (AwaitParticipant a) = True"
| "holds_slot (Scanning pages err) = True"
| "holds_slot p = False"

definition holders :: "race \<Rightarrow> nat" where
  "holders s = length (filter holds_slot (probes s))"

text \<open>\<^verbatim>\<open>for t in tasks: if not t.done(): t.cancel()\<close>, and the tasks end.\<close>

definition cancel_all :: "race \<Rightarrow> race" where
  "cancel_all s = s\<lparr>probes := map (\<lambda>p. Finished) (probes s), slots := slots s + holders s\<rparr>"

text \<open>
  The resolver wakes from \<^verbatim>\<open>asyncio.sleep(0.05)\<close>.  It sleeps again while
  \<^verbatim>\<open>done_event\<close> is not set and a task is not done.  Otherwise it cancels the tasks that
  still run (when \<^verbatim>\<open>done_event\<close> is set), writes a user that was found into the cache and
  returns \<^verbatim>\<open>found_user["val"]\<close>.
\<close>

definition poll :: "client \<Rightarrow> int \<Rightarrow> race \<Rightarrow> race" where
  "poll cl uid s =
     (if resolved s \<noteq> None then s
      else if \<not> done_event s \<and> list_ex (\<lambda>p. p \<noteq> Finished) (probes s) then s
      else
        let s1 = (if done_event s then cancel_all s else s) in
        (case found_user s of
           None \<Rightarrow> s1\<lparr>resolved := Some None\<rparr>
         | Some user \<Rightarrow>
             s1\<lparr>entities := (entities s)
                   (uid \<mapsto> \<lparr>cached_data = Some user, cached_at = clock cl (calls (wire s))\<rparr>),
                resolved := Some (Some user)\<rparr>))"

datatype race_event = Poll | Probe nat

text \<open>
  One step of the event loop: the resolver wakes, or the task \<open>k\<close> runs until it awaits
  again.  A task that waits for a slot runs when the semaphore has one.
\<close>

definition race_step ::
  "client \<Rightarrow> scope list \<Rightarrow> int \<Rightarrow> nat \<Rightarrow> race \<Rightarrow> race_event \<Rightarrow> race" where
  "race_step cl groups uid limit s ev =
     (case ev of
        Poll \<Rightarrow> poll cl uid s
      | Probe k \<Rightarrow>
          if k < length (probes s) \<and> k < length groups
          then (case probes s ! k of
                  Created \<Rightarrow>
                    if 0 < slots s then enter_slot cl groups uid limit k s
                    else s\<lparr>probes := (probes s)[k := AwaitSlot]\<rparr>
                | AwaitSlot \<Rightarrow> if 0 < slots s then enter_slot cl groups uid limit k s else s
                | AwaitParticipant a \<Rightarrow> on_answer cl groups uid limit k a s
                | Scanning pages err \<Rightarrow> on_page groups uid k pages err s
                | Finished \<Rightarrow> s)
          else s)"

fun race_run ::
  "client \<Rightarrow> scope list \<Rightarrow> int \<Rightarrow> nat \<Rightarrow> race_event list \<Rightarrow> race \<Rightarrow> race" where
  "race_run cl groups uid limit [] s = s"
| "race_run cl groups uid limit (ev # evs) s =
     race_run cl groups uid limit evs (race_step cl groups uid limit s ev)"

subsection \<open>The race as a whole\<close>

text \<open>The semaphore: the free slots and the tasks that hold one add up to the limit.\<close>

definition slot_invariant :: "race \<Rightarrow> bool" where
  "slot_invariant s = (slots s + holders s = PARALLEL_LIMIT)"

text \<open>
  A client that answers the same request the same way whenever it is asked, and what a
  task finds in a group of such a client when it runs to its end: the user of the lookup,
  or else the first participant with the id on the pages of the scan.
\<close>

definition steady :: "client \<Rightarrow> bool" where
  "steady cl =
     ((\<forall>sofar chat_id user_id.
         get_participant cl sofar chat_id user_id = get_participant cl [] chat_id user_id)
      \<and> (\<forall>sofar chat_id limit.
         iter_participants cl sofar chat_id limit = iter_participants cl [] chat_id limit))"

definition lookup_finds :: "client \<Rightarrow> int \<Rightarrow> scope \<Rightarrow> entity option" where
  "lookup_finds cl uid g = answer_finds uid (get_participant cl [] (gid g) uid)"

definition probe_finds :: "client \<Rightarrow> int \<Rightarrow> nat \<Rightarrow> scope \<Rightarrow> entity option" where
  "probe_finds cl uid limit g =
     (case lookup_finds cl uid g of
        Some u \<Rightarrow> Some u
      | None \<Rightarrow> find_user uid (concat (fst (iter_participants cl [] (gid g) limit))))"

text \<open>Exactly one group, the one at position \<open>k\<close>, holds the target, as the identity \<open>u\<close>.\<close>

definition only_holder :: "client \<Rightarrow> scope list \<Rightarrow> int \<Rightarrow> nat \<Rightarrow> nat \<Rightarrow> entity \<Rightarrow> bool" where
  "only_holder cl groups uid limit k u =
     (k < length groups \<and> probe_finds cl uid limit (groups ! k) = Some u
      \<and> (\<forall>j. j < length groups \<and> j \<noteq> k \<longrightarrow> probe_finds cl uid limit (groups ! j) = None))"

subsection \<open>A concrete race\<close>

text \<open>
  Three groups and the target 555.  The lookup is refused in the groups 1 and 3 and
  answered with the target in the group 2; the participants of group 1 come on three
  pages, those of group 3 on one, none of them the target.
\<close>

definition member :: "int \<Rightarrow> entity" where
  "member i = \<lparr>ent_id = i, access_hash = Some 1, broadcast = None\<rparr>"

definition three_groups :: "scope list" where
  "three_groups = [\<lparr>gid = 1, title = ''one''\<rparr>, \<lparr>gid = 2, title = ''two''\<rparr>, \<lparr>gid = 3, title = ''three''\<rparr>]"

definition roster :: client where
  "roster =
     \<lparr>edit_banned = (\<lambda>sofar chat_id who r. None),
      get_entity = (\<lambda>sofar target. Inl (Exn 2)),
      get_participant =
        (\<lambda>sofar chat_id user_id.
           if chat_id = 2
           then Inr \<lparr>peer_channel_id = None, admin = None, users = [member 7, member user_id]\<rparr>
           else Inl (Exn 6)),
      delete_participant_history = (\<lambda>sofar chat_id who. None),
      get_me = (\<lambda>sofar. Inr 99),
      iter_dialogs = (\<lambda>sofar. ([], None)),
      iter_participants =
        (\<lambda>sofar chat_id limit.
           if chat_id = 1 then ([[member 11, member 12], [member 13], [member 14]], None)
           else ([[member 31]], None)),
      clock = (\<lambda>sofar. 1000)\<rparr>"

text \<open>
  The tasks of the groups 1 and 2 send their lookups; the task of group 1 starts its
  scan; the task of group 2 finds the target.
\<close>

definition until_match :: "race_event list" where
  "until_match = [Probe 0, Probe 1, Probe 0, Probe 1]"

text \<open>Every task has returned or was cancelled.\<close>

definition all_finished :: "race \<Rightarrow> bool" where
  "all_finished s = (\<not> list_ex (\<lambda>p. p \<noteq> Finished) (probes s))"

text \<open>
  What holds at every moment of a call that found no item in the cache \<open>cache0\<close>: one
  task for each group; the semaphore is intact; \<^verbatim>\<open>done_event\<close> is set exactly when a user
  was found; the cache is untouched until the call returns, and when it has returned,
  every task has ended, the value returned is \<^verbatim>\<open>found_user["val"]\<close>, and the cache was
  written exactly when that is a user.
\<close>

definition race_invariant :: "entity_cache \<Rightarrow> int \<Rightarrow> scope list \<Rightarrow> race \<Rightarrow> bool" where
  "race_invariant cache0 uid groups s =
     (length (probes s) = length groups
      \<and> slot_invariant s
      \<and> done_event s = (found_user s \<noteq> None)
      \<and> (case resolved s of
            None \<Rightarrow> entities s = cache0
          | Some r \<Rightarrow>
              r = found_user s \<and> all_finished s
              \<and> (case r of
                    None \<Rightarrow> entities s = cache0
                  | Some u \<Rightarrow>
                      (\<exists>t. entities s = cache0(uid \<mapsto> \<lparr>cached_data = Some u, cached_at = t\<rparr>)))))"

text \<open>
  With a steady client and the target in the group at position \<open>k\<close> only: a task that
  waits for its lookup waits for the answer of its group; a task that scans has found
  nothing in its lookup nor on the pages behind it; whatever was found is the identity
  \<open>u\<close>; and the task of the group \<open>k\<close> does not end before \<^verbatim>\<open>done_event\<close> is set.
\<close>

definition tracking :: "client \<Rightarrow> scope list \<Rightarrow> int \<Rightarrow> nat \<Rightarrow> nat \<Rightarrow> entity \<Rightarrow> race \<Rightarrow> bool" where
  "tracking cl groups uid limit k u s =
     ((\<forall>j a. j < length groups \<and> probes s ! j = AwaitParticipant a \<longrightarrow>
          a = get_participant cl [] (gid (groups ! j)) uid)
      \<and> (\<forall>j pages err. j < length groups \<and> probes s ! j = Scanning pages err \<longrightarrow>
          lookup_finds cl uid (groups ! j) = None
          \<and> (\<exists>seen. fst (iter_participants cl [] (gid (groups ! j)) limit) = seen @ pages
                \<and> find_user uid (concat seen) = None))
      \<and> (found_user s = None \<or> found_user s = Some u)
      \<and> (probes s ! k = Finished \<longrightarrow> done_event s))"

text \<open>
  \<^verbatim>\<open>_resolve_user_across_groups_by_id(client, groups, uid, per_group_limit)\<close> on the
  cache \<open>ent_cache\<close>, after the steps \<open>evs\<close> of the event loop.
\<close>

definition resolve ::
  "client \<Rightarrow> scope list \<Rightarrow> int \<Rightarrow> nat option \<Rightarrow> entity_cache \<Rightarrow> world \<Rightarrow> race_event list \<Rightarrow> race" where
  "resolve cl groups uid per_group_limit ent_cache w evs =
     race_run cl groups uid (per_limit per_group_limit) evs (resolve_start cl groups uid ent_cache w)"

fun is_scanning :: "probe \<Rightarrow> bool" where
  "is_scanning (Scanning pages err) = True"
| "is_scanning p = False"

text \<open>The number of tasks that have not ended.\<close>

definition unfinished :: "race \<Rightarrow> nat" where
  "unfinished s = length (filter (\<lambda>p. p \<noteq> Finished) (probes s))"

text \<open>
  A cache that knows the user 7 and not the user 555, one that knows both, and a single
  group in which the user 555 is not found.
\<close>

definition old_cache :: entity_cache where
  "old_cache = [7 \<mapsto> \<lparr>cached_data = Some (member 7), cached_at = 1\<rparr>]"

definition warm_cache :: entity_cache where
  "warm_cache = old_cache(555 \<mapsto> \<lparr>cached_data = Some (member 555), cached_at = 2\<rparr>)"

definition lonely_group :: "scope list" where
  "lonely_group = [\<lparr>gid = 3, title = ''three''\<rparr>]"

text \<open>The task of the only group asks, scans its one page and ends; the resolver wakes.\<close>

definition in_vain :: "race_event list" where
  "in_vain = [Probe 0, Poll, Probe 0, Probe 0, Poll]"

text \<open>
  After the match the task of group 1 gets its first page, and then the resolver wakes
  and the task of group 3 is run in vain.
\<close>

definition after_match :: "race_event list" where
  "after_match = until_match @ [Probe 0, Poll, Probe 2]"

section \<open>Properties of the batch dispatcher\<close>

lemma count_result_process_group:
  "count_result (Inr (process_group act g)) (s, f, fg) =
     (if succeeds act g then (s + 1, f, fg) else (s, f + 1, fg @ failure_reason act g))"
  by (cases "act g")
     (auto simp: process_group_def succeeds_def failure_reason_def exc_suffix_def)

lemma count_results_gather_batch:
  "count_results (gather_batch act batch) (s, f, fg) =
     (s + length (filter (succeeds act) batch),
      f + length (filter (\<lambda>g. \<not> succeeds act g) batch),
      fg @ concat (map (failure_reason act) (filter (\<lambda>g. \<not> succeeds act g) batch)))"
proof (induction batch arbitrary: s f fg)
  case Nil
  show ?case by (simp add: gather_batch_def)
next
  case (Cons g batch)
  have step: "count_results (gather_batch act (g # batch)) (s, f, fg) =
      count_results (gather_batch act batch) (count_result (Inr (process_group act g)) (s, f, fg))"
    by (simp add: gather_batch_def)
  show ?case
    unfolding step count_result_process_group
    by (cases "succeeds act g") (simp_all add: Cons.IH)
qed


lemma batch_loop_unfold:
  "i < length groups \<Longrightarrow> batch_loop act groups i t =
     batch_loop act groups (i + BATCH_SIZE)
        (count_results (gather_batch act (take BATCH_SIZE (drop i groups))) t)"
  by (subst batch_loop.simps) simp

lemma batch_loop_done:
  "\<not> i < length groups \<Longrightarrow> batch_loop act groups i t = t"
  by (subst batch_loop.simps) simp

lemma drop_batch_split:
  "drop i groups = take n (drop i groups) @ drop (i + n) groups"
  by (metis add.commute append_take_drop_id drop_drop)

lemma batch_loop_eq:
  "batch_loop act groups i (s, f, fg) =
     (s + length (filter (succeeds act) (drop i groups)),
      f + length (filter (\<lambda>g. \<not> succeeds act g) (drop i groups)),
      fg @ concat (map (failure_reason act) (filter (\<lambda>g. \<not> succeeds act g) (drop i groups))))"
proof (induction "length groups - i" arbitrary: i s f fg rule: less_induct)
  case less
  show ?case
  proof (cases "i < length groups")
    case False
    then show ?thesis by (simp add: batch_loop_done)
  next
    case True
    let ?b = "take BATCH_SIZE (drop i groups)"
    let ?r = "drop (i + BATCH_SIZE) groups"
    have smaller: "length groups - (i + BATCH_SIZE) < length groups - i"
      using True by (simp add: BATCH_SIZE_def)
    have "batch_loop act groups i (s, f, fg) =
        batch_loop act groups (i + BATCH_SIZE) (count_results (gather_batch act ?b) (s, f, fg))"
      using True by (rule batch_loop_unfold)
    also have "\<dots> =
        (s + length (filter (succeeds act) ?b) + length (filter (succeeds act) ?r),
         f + length (filter (\<lambda>g. \<not> succeeds act g) ?b)
           + length (filter (\<lambda>g. \<not> succeeds act g) ?r),
         (fg @ concat (map (failure_reason act) (filter (\<lambda>g. \<not> succeeds act g) ?b)))
           @ concat (map (failure_reason act) (filter (\<lambda>g. \<not> succeeds act g) ?r)))"
      unfolding count_results_gather_batch by (rule less.hyps [OF smaller])
    also have "\<dots> =
        (s + length (filter (succeeds act) (?b @ ?r)),
         f + length (filter (\<lambda>g. \<not> succeeds act g) (?b @ ?r)),
         fg @ concat (map (failure_reason act) (filter (\<lambda>g. \<not> succeeds act g) (?b @ ?r))))"
      by simp
    also have "?b @ ?r = drop i groups"
      by (rule drop_batch_split [symmetric])
    finally show ?thesis .
  qed
qed

lemma batch_ban_operation_eq:
  "batch_ban_operation act groups =
     (length (filter (succeeds act) groups),
      length (filter (\<lambda>g. \<not> succeeds act g) groups),
      concat (map (failure_reason act) (filter (\<lambda>g. \<not> succeeds act g) groups)))"
  by (simp add: batch_ban_operation_def batch_loop_eq)

lemma count_result_total:
  "count_result r (s, f, fg) = (s', f', fg') \<Longrightarrow> s' + f' = s + f + 1"
  by (cases r) (auto split: if_splits)

lemma count_results_total:
  "count_results rs (s, f, fg) = (s', f', fg') \<Longrightarrow> s' + f' = s + f + length rs"
proof (induction rs arbitrary: s f fg)
  case Nil
  then show ?case by simp
next
  case (Cons r rs)
  obtain s1 f1 fg1 where one: "count_result r (s, f, fg) = (s1, f1, fg1)"
    by (cases "count_result r (s, f, fg)") auto
  from Cons.prems one have "count_results rs (s1, f1, fg1) = (s', f', fg')" by simp
  from Cons.IH [OF this] count_result_total [OF one] show ?case by simp
qed

lemma length_filter_partition:
  "length (filter P xs) + length (filter (\<lambda>x. \<not> P x) xs) = length xs"
  by (induction xs) auto

text \<open>
  Claim C9.  For every list of groups and every outcome of the action in each group
  (it returns true, returns false or raises), the two counters returned by
  \<open>batch_ban_operation\<close> add up to the length of the list: a group whose action returned
  true is counted in \<open>success\<close> and in nothing else, every other group is counted in
  \<open>failed\<close> and in nothing else.
\<close>

theorem batch_counts_partition:
  "(case batch_ban_operation act groups of
      (success, failed, failed_groups) \<Rightarrow>
         success + failed = length groups
       \<and> success = length (filter (succeeds act) groups)
       \<and> failed = length (failing act groups))"
  by (simp add: batch_ban_operation_eq failing_def length_filter_partition)

text \<open>
  Claim C4, as the code has it.  The dispatch never aborts: its result is a tally over the
  whole list, in input order.  A group whose action returns false leaves its title in the
  failure list when the title is not empty (\<^verbatim>\<open>if result[1]\<close>), and nothing when it is
  empty; a group whose action raises leaves its title followed by the exception marker.
  So a dispatch over 25 groups of which exactly 5 fail, each by returning false and each
  with a title that is not empty, returns 20 successes, 5 failures and exactly the five
  titles.
\<close>

theorem batch_partial_failure:
  "batch_ban_operation act groups =
     (length (filter (succeeds act) groups), length (failing act groups),
      concat (map (failure_reason act) (failing act groups)))
   \<and> (length groups = 25 \<and> length (failing act groups) = 5
        \<and> (\<forall>g \<in> set (failing act groups). act g = Inr False \<and> title g \<noteq> [])
      \<longrightarrow> batch_ban_operation act groups = (20, 5, map title (failing act groups)))"
proof -
  have general: "batch_ban_operation act groups =
     (length (filter (succeeds act) groups), length (failing act groups),
      concat (map (failure_reason act) (failing act groups)))"
    by (simp add: batch_ban_operation_eq failing_def)
  have titles: "concat (map (failure_reason act) fs) = map title fs"
    if "\<forall>g \<in> set fs. act g = Inr False \<and> title g \<noteq> []" for fs
    using that by (induction fs) (auto simp: failure_reason_def)
  have count: "length (filter (succeeds act) groups) = 20"
    if "length groups = 25" "length (failing act groups) = 5"
    using that length_filter_partition [of "succeeds act" groups] by (simp add: failing_def)
  show ?thesis
    using general titles count by auto
qed

lemma upt_1_26: "[Suc 0..<26] = [1, 2, 3, 4, 5, 6, 7, 8, 9, 10, 11, 12, 13, 14, 15, 16, 17, 18, 19, 20,
    21, 22, 23, 24, 25 :: nat]"
  by (simp add: upt_rec)

lemma failing_groups25:
  "failing five_fail groups25 =
     [\<lparr>gid = 3, title = ''alpha''\<rparr>, \<lparr>gid = 8, title = ''beta''\<rparr>, \<lparr>gid = 19, title = ''gamma''\<rparr>,
      \<lparr>gid = 21, title = ''delta''\<rparr>, \<lparr>gid = 25, title = ''epsilon''\<rparr>]"
  by (simp add: failing_def groups25_def upt_1_26 succeeds_def five_fail_def title25_def)

lemma failing_untitled25:
  "failing five_fail untitled25 =
     [\<lparr>gid = 3, title = []\<rparr>, \<lparr>gid = 8, title = []\<rparr>, \<lparr>gid = 19, title = []\<rparr>,
      \<lparr>gid = 21, title = []\<rparr>, \<lparr>gid = 25, title = []\<rparr>]"
  by (simp add: failing_def untitled25_def upt_1_26 succeeds_def five_fail_def)

theorem batch_partial_failure_witness:
  "length groups25 = 25 \<and> length (failing five_fail groups25) = 5
   \<and> batch_ban_operation five_fail groups25
       = (20, 5, [''alpha'', ''beta'', ''gamma'', ''delta'', ''epsilon''])"
proof -
  have len: "length groups25 = 25" by (simp add: groups25_def)
  have five: "length (failing five_fail groups25) = 5" by (simp add: failing_groups25)
  have each: "\<forall>g \<in> set (failing five_fail groups25). five_fail g = Inr False \<and> title g \<noteq> []"
    by (simp add: failing_groups25 five_fail_def)
  from batch_partial_failure [of five_fail groups25] len five each
  have "batch_ban_operation five_fail groups25 = (20, 5, map title (failing five_fail groups25))"
    by blast
  with len five show ?thesis by (simp add: failing_groups25)
qed

text \<open>
  The claim as the specification words it fails where a failing group has the empty
  title: five of the 25 groups fail, and the failure list stays empty, so it does not
  hold their titles.
\<close>

theorem batch_partial_failure_counterexample:
  "length untitled25 = 25 \<and> length (failing five_fail untitled25) = 5
   \<and> batch_ban_operation five_fail untitled25 = (20, 5, [])
   \<and> set (map title (failing five_fail untitled25)) \<noteq> set (snd (snd (batch_ban_operation five_fail untitled25)))"
proof -
  have len: "length untitled25 = 25" by (simp add: untitled25_def)
  have ok: "length (filter (succeeds five_fail) untitled25) = 20"
    using length_filter_partition [of "succeeds five_fail" untitled25] len
    by (simp add: failing_untitled25 [unfolded failing_def])
  have reasons: "concat (map (failure_reason five_fail) (failing five_fail untitled25)) = []"
    by (simp add: failing_untitled25 failure_reason_def five_fail_def)
  have res: "batch_ban_operation five_fail untitled25 = (20, 5, [])"
    using ok reasons by (simp add: batch_ban_operation_eq failing_untitled25 [unfolded failing_def] failing_def)
  show ?thesis using len res by (simp add: failing_untitled25)
qed

section \<open>Properties of the fallback executor\<close>

lemma calls_sent [simp]: "calls (sent r w) = calls w @ [r]"
  by (simp add: sent_def)

lemma calls_logged [simp]: "calls (logged l w) = calls w"
  by (simp add: logged_def)

lemma logs_sent [simp]: "logs (sent r w) = logs w"
  by (simp add: sent_def)

lemma logs_logged [simp]: "logs (logged l w) = logs w @ [l]"
  by (simp add: logged_def)

text \<open>The requests already sent stay in the record, in their order.\<close>

lemma safe_get_entity_calls:
  "\<exists>rs. calls (snd (safe_get_entity cl target w)) = calls w @ rs"
  by (simp add: safe_get_entity_def split: sum.split)

lemma delete_user_messages_calls:
  "\<exists>rs. calls (delete_user_messages cl chat_id user_id w)
         = calls w @ DeleteParticipantHistoryRequest chat_id (ById user_id) # rs"
  by (auto simp: delete_user_messages_def request_delete_def safe_get_entity_def
           split: option.split sum.split)

text \<open>The rights change asks nothing of the deletion of history.\<close>

lemma safe_get_entity_purge_update [simp]:
  "safe_get_entity (cl\<lparr>delete_participant_history := d\<rparr>) = safe_get_entity cl"
  by (intro ext) (simp add: safe_get_entity_def)

lemma request_edit_purge_update [simp]:
  "request_edit (cl\<lparr>delete_participant_history := d\<rparr>) = request_edit cl"
  by (intro ext) (simp add: request_edit_def)

lemma request_participant_purge_update [simp]:
  "request_participant (cl\<lparr>delete_participant_history := d\<rparr>) = request_participant cl"
  by (intro ext) (simp add: request_participant_def)

lemma ban_method4_purge_update [simp]:
  "ban_method4 (cl\<lparr>delete_participant_history := d\<rparr>) = ban_method4 cl"
  by (intro ext) (simp add: ban_method4_def Let_def split: prod.split option.split sum.split)

lemma ban_method3_purge_update [simp]:
  "ban_method3 (cl\<lparr>delete_participant_history := d\<rparr>) = ban_method3 cl"
  by (intro ext) (simp add: ban_method3_def Let_def split: prod.split option.split sum.split)

lemma ban_after_method1_purge_update [simp]:
  "ban_after_method1 (cl\<lparr>delete_participant_history := d\<rparr>) = ban_after_method1 cl"
  by (intro ext) (simp add: ban_after_method1_def Let_def split: prod.split option.split sum.split)

lemma ban_methods_purge_update:
  "ban_methods (cl\<lparr>delete_participant_history := d\<rparr>) = ban_methods cl"
  by (intro ext) (simp add: ban_methods_def Let_def split: prod.split option.split sum.split)

text \<open>What the deletion of history sends and logs, case by case.\<close>

lemma delete_by_id_succeeds:
  assumes "delete_participant_history cl (calls w) chat_id (ById user_id) = None"
  shows "delete_user_messages cl chat_id user_id w
     = w\<lparr>calls := calls w @ [DeleteParticipantHistoryRequest chat_id (ById user_id)],
         logs := logs w @ [DeletedAllMessages user_id chat_id]\<rparr>"
  using assms by (simp add: delete_user_messages_def request_delete_def sent_def logged_def)

lemma delete_entity_unresolved:
  assumes "delete_participant_history cl (calls w) chat_id (ById user_id) = Some e1"
    and "get_entity cl (calls w @ [DeleteParticipantHistoryRequest chat_id (ById user_id)]) user_id = Inl x"
  shows "delete_user_messages cl chat_id user_id w
     = w\<lparr>calls := calls w @ [DeleteParticipantHistoryRequest chat_id (ById user_id), GetEntity user_id],
         logs := logs w @ [Method1DeleteFailed e1, GetEntityError user_id x]\<rparr>"
  using assms
  by (simp add: delete_user_messages_def request_delete_def safe_get_entity_def sent_def logged_def)

lemma delete_by_entity_succeeds:
  assumes "delete_participant_history cl (calls w) chat_id (ById user_id) = Some e1"
    and "get_entity cl (calls w @ [DeleteParticipantHistoryRequest chat_id (ById user_id)]) user_id = Inr ue"
    and "delete_participant_history cl
           (calls w @ [DeleteParticipantHistoryRequest chat_id (ById user_id), GetEntity user_id])
           chat_id (ByEntity ue) = None"
  shows "delete_user_messages cl chat_id user_id w
     = w\<lparr>calls := calls w @ [DeleteParticipantHistoryRequest chat_id (ById user_id), GetEntity user_id,
                              DeleteParticipantHistoryRequest chat_id (ByEntity ue)],
         logs := logs w @ [Method1DeleteFailed e1, DeletedAllMessagesMethod2 user_id chat_id]\<rparr>"
  using assms
  by (simp add: delete_user_messages_def request_delete_def safe_get_entity_def sent_def logged_def)

lemma delete_by_entity_fails:
  assumes "delete_participant_history cl (calls w) chat_id (ById user_id) = Some e1"
    and "get_entity cl (calls w @ [DeleteParticipantHistoryRequest chat_id (ById user_id)]) user_id = Inr ue"
    and "delete_participant_history cl
           (calls w @ [DeleteParticipantHistoryRequest chat_id (ById user_id), GetEntity user_id])
           chat_id (ByEntity ue) = Some e2"
  shows "delete_user_messages cl chat_id user_id w
     = w\<lparr>calls := calls w @ [DeleteParticipantHistoryRequest chat_id (ById user_id), GetEntity user_id,
                              DeleteParticipantHistoryRequest chat_id (ByEntity ue)],
         logs := logs w @ [Method1DeleteFailed e1, Method2DeleteFailed e2,
                           CouldNotDeleteMessages user_id]\<rparr>"
  using assms
  by (simp add: delete_user_messages_def request_delete_def safe_get_entity_def sent_def logged_def)

lemma safe_ban_action_world:
  "snd (safe_ban_action cl chat_id user_id r w)
     = (if view_messages r
        then delete_user_messages cl chat_id user_id (snd (ban_methods cl chat_id user_id r w))
        else snd (ban_methods cl chat_id user_id r w))"
  by (simp add: safe_ban_action_def case_prod_unfold)

text \<open>
  Claim C6.  Whatever the deletion of history does (\<open>d\<close> is any behaviour of
  \<^verbatim>\<open>DeleteParticipantHistoryRequest\<close>: it succeeds or raises, at either step), the
  boolean \<open>safe_ban_action\<close> returns is the one the rights change alone produces.  When
  \<open>view_messages\<close> is set, the purge follows the rights change and is exactly this, with
  \<open>sent\<close> the requests and \<open>said\<close> the log lines after the rights change:

  \<^item> the deletion by id is requested; when it succeeds, nothing else is requested;
  \<^item> when it raises, the entity is resolved; when that fails, nothing else is requested;
  \<^item> when the entity resolves, the deletion by the entity is requested, and it succeeds
    or its exception is logged with the warning that the messages could not be deleted.

  When \<open>view_messages\<close> is not set, nothing follows the rights change.
\<close>

theorem purge_never_changes_result:
  "fst (safe_ban_action (cl\<lparr>delete_participant_history := d\<rparr>) chat_id user_id r w)
     = fst (ban_methods cl chat_id user_id r w)
   \<and> (\<forall>sent said. view_messages r
        \<and> sent = calls (snd (ban_methods cl chat_id user_id r w))
        \<and> said = logs (snd (ban_methods cl chat_id user_id r w)) \<longrightarrow>
        (delete_participant_history cl sent chat_id (ById user_id) = None \<longrightarrow>
           calls (snd (safe_ban_action cl chat_id user_id r w))
             = sent @ [DeleteParticipantHistoryRequest chat_id (ById user_id)]
           \<and> logs (snd (safe_ban_action cl chat_id user_id r w))
             = said @ [DeletedAllMessages user_id chat_id])
        \<and> (\<forall>e1 x. delete_participant_history cl sent chat_id (ById user_id) = Some e1
              \<and> get_entity cl (sent @ [DeleteParticipantHistoryRequest chat_id (ById user_id)]) user_id
                  = Inl x \<longrightarrow>
           calls (snd (safe_ban_action cl chat_id user_id r w))
             = sent @ [DeleteParticipantHistoryRequest chat_id (ById user_id), GetEntity user_id]
           \<and> logs (snd (safe_ban_action cl chat_id user_id r w))
             = said @ [Method1DeleteFailed e1, GetEntityError user_id x])
        \<and> (\<forall>e1 ue. delete_participant_history cl sent chat_id (ById user_id) = Some e1
              \<and> get_entity cl (sent @ [DeleteParticipantHistoryRequest chat_id (ById user_id)]) user_id
                  = Inr ue \<longrightarrow>
           calls (snd (safe_ban_action cl chat_id user_id r w))
             = sent @ [DeleteParticipantHistoryRequest chat_id (ById user_id), GetEntity user_id,
                       DeleteParticipantHistoryRequest chat_id (ByEntity ue)]
           \<and> (delete_participant_history cl
                 (sent @ [DeleteParticipantHistoryRequest chat_id (ById user_id), GetEntity user_id])
                 chat_id (ByEntity ue) = None \<longrightarrow>
              logs (snd (safe_ban_action cl chat_id user_id r w))
                = said @ [Method1DeleteFailed e1, DeletedAllMessagesMethod2 user_id chat_id])
           \<and> (\<forall>e2. delete_participant_history cl
                 (sent @ [DeleteParticipantHistoryRequest chat_id (ById user_id), GetEntity user_id])
                 chat_id (ByEntity ue) = Some e2 \<longrightarrow>
              logs (snd (safe_ban_action cl chat_id user_id r w))
                = said @ [Method1DeleteFailed e1, Method2DeleteFailed e2,
                          CouldNotDeleteMessages user_id])))
   \<and> (\<not> view_messages r \<longrightarrow>
        snd (safe_ban_action cl chat_id user_id r w) = snd (ban_methods cl chat_id user_id r w))"
proof -
  let ?w1 = "snd (ban_methods cl chat_id user_id r w)"
  have first: "fst (safe_ban_action (cl\<lparr>delete_participant_history := d\<rparr>) chat_id user_id r w)
      = fst (ban_methods cl chat_id user_id r w)"
    by (simp add: safe_ban_action_def ban_methods_purge_update case_prod_unfold)
  have third: "\<not> view_messages r \<longrightarrow> snd (safe_ban_action cl chat_id user_id r w) = ?w1"
    by (simp add: safe_ban_action_world)
  have purge: "snd (safe_ban_action cl chat_id user_id r w) = delete_user_messages cl chat_id user_id ?w1"
    if "view_messages r"
    using that by (simp add: safe_ban_action_world)
  have a: "calls (snd (safe_ban_action cl chat_id user_id r w))
             = calls ?w1 @ [DeleteParticipantHistoryRequest chat_id (ById user_id)]
           \<and> logs (snd (safe_ban_action cl chat_id user_id r w))
             = logs ?w1 @ [DeletedAllMessages user_id chat_id]"
    if "view_messages r" "delete_participant_history cl (calls ?w1) chat_id (ById user_id) = None"
    using that by (simp add: purge delete_by_id_succeeds)
  have b: "calls (snd (safe_ban_action cl chat_id user_id r w))
             = calls ?w1 @ [DeleteParticipantHistoryRequest chat_id (ById user_id), GetEntity user_id]
           \<and> logs (snd (safe_ban_action cl chat_id user_id r w))
             = logs ?w1 @ [Method1DeleteFailed e1, GetEntityError user_id x]"
    if "view_messages r" "delete_participant_history cl (calls ?w1) chat_id (ById user_id) = Some e1"
      "get_entity cl (calls ?w1 @ [DeleteParticipantHistoryRequest chat_id (ById user_id)]) user_id = Inl x"
    for e1 x
    using that by (simp add: purge delete_entity_unresolved)
  have c: "calls (snd (safe_ban_action cl chat_id user_id r w))
             = calls ?w1 @ [DeleteParticipantHistoryRequest chat_id (ById user_id), GetEntity user_id,
                       DeleteParticipantHistoryRequest chat_id (ByEntity ue)]
           \<and> (delete_participant_history cl
                 (calls ?w1 @ [DeleteParticipantHistoryRequest chat_id (ById user_id), GetEntity user_id])
                 chat_id (ByEntity ue) = None \<longrightarrow>
              logs (snd (safe_ban_action cl chat_id user_id r w))
                = logs ?w1 @ [Method1DeleteFailed e1, DeletedAllMessagesMethod2 user_id chat_id])
           \<and> (\<forall>e2. delete_participant_history cl
                 (calls ?w1 @ [DeleteParticipantHistoryRequest chat_id (ById user_id), GetEntity user_id])
                 chat_id (ByEntity ue) = Some e2 \<longrightarrow>
              logs (snd (safe_ban_action cl chat_id user_id r w))
                = logs ?w1 @ [Method1DeleteFailed e1, Method2DeleteFailed e2,
                          CouldNotDeleteMessages user_id])"
    if vm: "view_messages r"
      and d1: "delete_participant_history cl (calls ?w1) chat_id (ById user_id) = Some e1"
      and ge: "get_entity cl (calls ?w1 @ [DeleteParticipantHistoryRequest chat_id (ById user_id)]) user_id = Inr ue"
    for e1 ue
  proof (cases "delete_participant_history cl
                 (calls ?w1 @ [DeleteParticipantHistoryRequest chat_id (ById user_id), GetEntity user_id])
                 chat_id (ByEntity ue)")
    case None
    from delete_by_entity_succeeds [OF d1 ge None] None show ?thesis
      by (simp add: purge [OF vm])
  next
    case (Some e2)
    from delete_by_entity_fails [OF d1 ge Some] Some show ?thesis
      by (simp add: purge [OF vm])
  qed
  have second: "\<forall>sent said. view_messages r
        \<and> sent = calls (snd (ban_methods cl chat_id user_id r w))
        \<and> said = logs (snd (ban_methods cl chat_id user_id r w)) \<longrightarrow>
        (delete_participant_history cl sent chat_id (ById user_id) = None \<longrightarrow>
           calls (snd (safe_ban_action cl chat_id user_id r w))
             = sent @ [DeleteParticipantHistoryRequest chat_id (ById user_id)]
           \<and> logs (snd (safe_ban_action cl chat_id user_id r w))
             = said @ [DeletedAllMessages user_id chat_id])
        \<and> (\<forall>e1 x. delete_participant_history cl sent chat_id (ById user_id) = Some e1
              \<and> get_entity cl (sent @ [DeleteParticipantHistoryRequest chat_id (ById user_id)]) user_id
                  = Inl x \<longrightarrow>
           calls (snd (safe_ban_action cl chat_id user_id r w))
             = sent @ [DeleteParticipantHistoryRequest chat_id (ById user_id), GetEntity user_id]
           \<and> logs (snd (safe_ban_action cl chat_id user_id r w))
             = said @ [Method1DeleteFailed e1, GetEntityError user_id x])
        \<and> (\<forall>e1 ue. delete_participant_history cl sent chat_id (ById user_id) = Some e1
              \<and> get_entity cl (sent @ [DeleteParticipantHistoryRequest chat_id (ById user_id)]) user_id
                  = Inr ue \<longrightarrow>
           calls (snd (safe_ban_action cl chat_id user_id r w))
             = sent @ [DeleteParticipantHistoryRequest chat_id (ById user_id), GetEntity user_id,
                       DeleteParticipantHistoryRequest chat_id (ByEntity ue)]
           \<and> (delete_participant_history cl
                 (sent @ [DeleteParticipantHistoryRequest chat_id (ById user_id), GetEntity user_id])
                 chat_id (ByEntity ue) = None \<longrightarrow>
              logs (snd (safe_ban_action cl chat_id user_id r w))
                = said @ [Method1DeleteFailed e1, DeletedAllMessagesMethod2 user_id chat_id])
           \<and> (\<forall>e2. delete_participant_history cl
                 (sent @ [DeleteParticipantHistoryRequest chat_id (ById user_id), GetEntity user_id])
                 chat_id (ByEntity ue) = Some e2 \<longrightarrow>
              logs (snd (safe_ban_action cl chat_id user_id r w))
                = said @ [Method1DeleteFailed e1, Method2DeleteFailed e2,
                          CouldNotDeleteMessages user_id]))"
  proof (intro allI impI, elim conjE)
    fix sent said
    assume vm: "view_messages r" and s1: "sent = calls ?w1" and s2: "said = logs ?w1"
    have a': "delete_participant_history cl sent chat_id (ById user_id) = None \<longrightarrow>
           calls (snd (safe_ban_action cl chat_id user_id r w))
             = sent @ [DeleteParticipantHistoryRequest chat_id (ById user_id)]
           \<and> logs (snd (safe_ban_action cl chat_id user_id r w))
             = said @ [DeletedAllMessages user_id chat_id]"
      unfolding s1 s2 using a [OF vm] by (rule impI)
    have b': "\<forall>e1 x. delete_participant_history cl sent chat_id (ById user_id) = Some e1
              \<and> get_entity cl (sent @ [DeleteParticipantHistoryRequest chat_id (ById user_id)]) user_id
                  = Inl x \<longrightarrow>
           calls (snd (safe_ban_action cl chat_id user_id r w))
             = sent @ [DeleteParticipantHistoryRequest chat_id (ById user_id), GetEntity user_id]
           \<and> logs (snd (safe_ban_action cl chat_id user_id r w))
             = said @ [Method1DeleteFailed e1, GetEntityError user_id x]"
      unfolding s1 s2
    proof (intro allI impI, elim conjE)
      fix e1 x
      assume "delete_participant_history cl (calls ?w1) chat_id (ById user_id) = Some e1"
        "get_entity cl (calls ?w1 @ [DeleteParticipantHistoryRequest chat_id (ById user_id)]) user_id = Inl x"
      then show "calls (snd (safe_ban_action cl chat_id user_id r w))
             = calls ?w1 @ [DeleteParticipantHistoryRequest chat_id (ById user_id), GetEntity user_id]
           \<and> logs (snd (safe_ban_action cl chat_id user_id r w))
             = logs ?w1 @ [Method1DeleteFailed e1, GetEntityError user_id x]"
        by (rule b [OF vm])
    qed
    have c': "\<forall>e1 ue. delete_participant_history cl sent chat_id (ById user_id) = Some e1
              \<and> get_entity cl (sent @ [DeleteParticipantHistoryRequest chat_id (ById user_id)]) user_id
                  = Inr ue \<longrightarrow>
           calls (snd (safe_ban_action cl chat_id user_id r w))
             = sent @ [DeleteParticipantHistoryRequest chat_id (ById user_id), GetEntity user_id,
                       DeleteParticipantHistoryRequest chat_id (ByEntity ue)]
           \<and> (delete_participant_history cl
                 (sent @ [DeleteParticipantHistoryRequest chat_id (ById user_id), GetEntity user_id])
                 chat_id (ByEntity ue) = None \<longrightarrow>
              logs (snd (safe_ban_action cl chat_id user_id r w))
                = said @ [Method1DeleteFailed e1, DeletedAllMessagesMethod2 user_id chat_id])
           \<and> (\<forall>e2. delete_participant_history cl
                 (sent @ [DeleteParticipantHistoryRequest chat_id (ById user_id), GetEntity user_id])
                 chat_id (ByEntity ue) = Some e2 \<longrightarrow>
              logs (snd (safe_ban_action cl chat_id user_id r w))
                = said @ [Method1DeleteFailed e1, Method2DeleteFailed e2,
                          CouldNotDeleteMessages user_id])"
      unfolding s1 s2
    proof (intro allI impI, elim conjE)
      fix e1 ue
      assume "delete_participant_history cl (calls ?w1) chat_id (ById user_id) = Some e1"
        "get_entity cl (calls ?w1 @ [DeleteParticipantHistoryRequest chat_id (ById user_id)]) user_id = Inr ue"
      then show "calls (snd (safe_ban_action cl chat_id user_id r w))
             = calls ?w1 @ [DeleteParticipantHistoryRequest chat_id (ById user_id), GetEntity user_id,
                       DeleteParticipantHistoryRequest chat_id (ByEntity ue)]
           \<and> (delete_participant_history cl
                 (calls ?w1 @ [DeleteParticipantHistoryRequest chat_id (ById user_id), GetEntity user_id])
                 chat_id (ByEntity ue) = None \<longrightarrow>
              logs (snd (safe_ban_action cl chat_id user_id r w))
                = logs ?w1 @ [Method1DeleteFailed e1, DeletedAllMessagesMethod2 user_id chat_id])
           \<and> (\<forall>e2. delete_participant_history cl
                 (calls ?w1 @ [DeleteParticipantHistoryRequest chat_id (ById user_id), GetEntity user_id])
                 chat_id (ByEntity ue) = Some e2 \<longrightarrow>
              logs (snd (safe_ban_action cl chat_id user_id r w))
                = logs ?w1 @ [Method1DeleteFailed e1, Method2DeleteFailed e2,
                          CouldNotDeleteMessages user_id])"
        by (rule c [OF vm])
    qed
    from a' b' c' show "(delete_participant_history cl sent chat_id (ById user_id) = None \<longrightarrow>
           calls (snd (safe_ban_action cl chat_id user_id r w))
             = sent @ [DeleteParticipantHistoryRequest chat_id (ById user_id)]
           \<and> logs (snd (safe_ban_action cl chat_id user_id r w))
             = said @ [DeletedAllMessages user_id chat_id])
        \<and> (\<forall>e1 x. delete_participant_history cl sent chat_id (ById user_id) = Some e1
              \<and> get_entity cl (sent @ [DeleteParticipantHistoryRequest chat_id (ById user_id)]) user_id
                  = Inl x \<longrightarrow>
           calls (snd (safe_ban_action cl chat_id user_id r w))
             = sent @ [DeleteParticipantHistoryRequest chat_id (ById user_id), GetEntity user_id]
           \<and> logs (snd (safe_ban_action cl chat_id user_id r w))
             = said @ [Method1DeleteFailed e1, GetEntityError user_id x])
        \<and> (\<forall>e1 ue. delete_participant_history cl sent chat_id (ById user_id) = Some e1
              \<and> get_entity cl (sent @ [DeleteParticipantHistoryRequest chat_id (ById user_id)]) user_id
                  = Inr ue \<longrightarrow>
           calls (snd (safe_ban_action cl chat_id user_id r w))
             = sent @ [DeleteParticipantHistoryRequest chat_id (ById user_id), GetEntity user_id,
                       DeleteParticipantHistoryRequest chat_id (ByEntity ue)]
           \<and> (delete_participant_history cl
                 (sent @ [DeleteParticipantHistoryRequest chat_id (ById user_id), GetEntity user_id])
                 chat_id (ByEntity ue) = None \<longrightarrow>
              logs (snd (safe_ban_action cl chat_id user_id r w))
                = said @ [Method1DeleteFailed e1, DeletedAllMessagesMethod2 user_id chat_id])
           \<and> (\<forall>e2. delete_participant_history cl
                 (sent @ [DeleteParticipantHistoryRequest chat_id (ById user_id), GetEntity user_id])
                 chat_id (ByEntity ue) = Some e2 \<longrightarrow>
              logs (snd (safe_ban_action cl chat_id user_id r w))
                = said @ [Method1DeleteFailed e1, Method2DeleteFailed e2,
                          CouldNotDeleteMessages user_id]))"
      by (intro conjI)
  qed
  from first second third show ?thesis
    by (intro conjI)
qed

lemma purge_refusing_update:
  "purge_refusing_client\<lparr>delete_participant_history := (\<lambda>sofar chat_id who. Some (Exn 4))\<rparr>
     = purge_refusing_client"
  by (simp add: purge_refusing_client_def)

lemma ban_methods_purge_refusing:
  "ban_methods purge_refusing_client 100 777 ban_rights world0
     = (True, \<lparr>calls = [EditBannedRequest 100 (ById 777) ban_rights], logs = []\<rparr>)"
  by (simp add: ban_methods_def request_edit_def purge_refusing_client_def world0_def sent_def)

theorem purge_never_changes_result_witness:
  "view_messages ban_rights
   \<and> fst (safe_ban_action purge_refusing_client 100 777 ban_rights world0) = True
   \<and> calls (snd (safe_ban_action purge_refusing_client 100 777 ban_rights world0))
       = [EditBannedRequest 100 (ById 777) ban_rights,
          DeleteParticipantHistoryRequest 100 (ById 777),
          GetEntity 777,
          DeleteParticipantHistoryRequest 100
            (ByEntity \<lparr>ent_id = 777, access_hash = Some 9, broadcast = None\<rparr>)]
   \<and> logs (snd (safe_ban_action purge_refusing_client 100 777 ban_rights world0))
       = [Method1DeleteFailed (Exn 4), Method2DeleteFailed (Exn 4), CouldNotDeleteMessages 777]"
proof -
  let ?ue = "\<lparr>ent_id = 777, access_hash = Some 9, broadcast = None\<rparr>"
  have vm: "view_messages ban_rights" by (simp add: ban_rights_def)
  have d: "delete_participant_history purge_refusing_client sofar chat_id who = Some (Exn 4)"
    for sofar chat_id who
    by (simp add: purge_refusing_client_def)
  have ge: "get_entity purge_refusing_client sofar 777 = Inr ?ue" for sofar
    by (simp add: purge_refusing_client_def)
  note t = purge_never_changes_result
         [where cl = purge_refusing_client and d = "\<lambda>sofar chat_id who. Some (Exn 4)"
            and chat_id = 100 and user_id = 777 and r = ban_rights and w = world0,
          unfolded purge_refusing_update ban_methods_purge_refusing fst_conv snd_conv]
  have one: "fst (safe_ban_action purge_refusing_client 100 777 ban_rights world0) = True"
    by (rule t [THEN conjunct1])
  note purge = t [THEN conjunct2, THEN conjunct1, rule_format, OF conjI [OF vm conjI [OF refl refl]]]
  note by_entity = purge [THEN conjunct2, THEN conjunct2, rule_format, OF conjI [OF d ge]]
  have sent: "calls (snd (safe_ban_action purge_refusing_client 100 777 ban_rights world0))
       = calls \<lparr>calls = [EditBannedRequest 100 (ById 777) ban_rights], logs = []\<rparr>
         @ [DeleteParticipantHistoryRequest 100 (ById 777), GetEntity 777,
            DeleteParticipantHistoryRequest 100 (ByEntity ?ue)]"
    by (rule by_entity [THEN conjunct1])
  have said: "logs (snd (safe_ban_action purge_refusing_client 100 777 ban_rights world0))
       = logs \<lparr>calls = [EditBannedRequest 100 (ById 777) ban_rights], logs = []\<rparr>
         @ [Method1DeleteFailed (Exn 4), Method2DeleteFailed (Exn 4), CouldNotDeleteMessages 777]"
    by (rule by_entity [THEN conjunct2, THEN conjunct2, rule_format, OF d])
  from vm one sent said show ?thesis by simp
qed

text \<open>
  Claim C3 at the input where the code leaves the chain early.  Method 1 raises and the
  id does not resolve, so method 2 sends nothing and raises nothing; methods 3 and 4 sit
  in the handler of method 2 and are not reached.  \<open>safe_ban_action\<close> returns false after
  two requests, although method 3 on the same client bans the channel identity.
\<close>

theorem safe_ban_action_leaves_chain_early:
  "safe_ban_action persona_client 100 777 mute_rights world0
     = (False, \<lparr>calls = [EditBannedRequest 100 (ById 777) mute_rights, GetEntity 777],
                logs = [Method1Failed (Exn 1), GetEntityError 777 (Exn 2)]\<rparr>)
   \<and> ban_method3 persona_client 100 777 mute_rights world0
     = (True, \<lparr>calls = [GetParticipantRequest 100 777, EditBannedRequest 100 (ById 4242) mute_rights],
               logs = [BannedChannelIdentity 4242]\<rparr>)"
  by (simp add: safe_ban_action_def ban_methods_def ban_after_method1_def ban_method3_def
        request_edit_def request_participant_def safe_get_entity_def persona_client_def
        mute_rights_def world0_def sent_def logged_def)

section \<open>Properties of the cache of managed groups\<close>

lemma check_group_eq:
  "check_group cl me d w =
     (if reports_ban_rights (get_participant cl (calls w) (dialog_id d) me)
      then Some (scope_of d) else None,
      sent (GetParticipantRequest (dialog_id d) me) w)"
  by (simp add: check_group_def request_participant_def reports_ban_rights_def scope_of_def
           split: sum.split option.split)

lemma check_requests_simps [simp]:
  "check_requests me [] = []"
  "check_requests me (d # ds) = GetParticipantRequest (dialog_id d) me # check_requests me ds"
  "check_requests me (xs @ ys) = check_requests me xs @ check_requests me ys"
  by (simp_all add: check_requests_def)

lemma sent_calls_update:
  "sent r w = w\<lparr>calls := calls w @ [r]\<rparr>"
  by (simp add: sent_def)

lemma check_batch_eq:
  "check_batch cl me ds w =
     (map (\<lambda>(d, a). if reports_ban_rights a then Some (scope_of d) else None)
          (zip ds (probe_answers cl me (calls w) ds)),
      w\<lparr>calls := calls w @ check_requests me ds\<rparr>)"
proof (induction ds arbitrary: w)
  case Nil
  show ?case by simp
next
  case (Cons d ds)
  show ?case
    by (simp add: check_group_eq Cons.IH sent_def)
qed

lemma kept_results_eq:
  "[g. Some g \<leftarrow> map (\<lambda>(d, a). if reports_ban_rights a then Some (scope_of d) else None) ps]
     = map scope_of (map fst (filter (\<lambda>(d, a). reports_ban_rights a) ps))"
  by (induction ps) auto

lemma moderated_Nil [simp]: "moderated cl me sofar [] = []"
  by (simp add: moderated_def)

lemma moderated_Cons:
  "moderated cl me sofar (d # ds) =
     (if reports_ban_rights (get_participant cl sofar (dialog_id d) me) then [d] else [])
       @ moderated cl me (sofar @ [GetParticipantRequest (dialog_id d) me]) ds"
  by (simp add: moderated_def)

lemma moderated_append:
  "moderated cl me sofar (xs @ ys) =
     moderated cl me sofar xs @ moderated cl me (sofar @ check_requests me xs) ys"
  by (induction xs arbitrary: sofar) (simp_all add: moderated_Cons)

lemma check_batch_kept:
  "[g. Some g \<leftarrow> fst (check_batch cl me ds w)] = map scope_of (moderated cl me (calls w) ds)"
  unfolding check_batch_eq fst_conv kept_results_eq moderated_def ..

lemma check_batches_unfold:
  "i < length dialogs \<Longrightarrow>
   check_batches cl me dialogs i groups w =
     check_batches cl me dialogs (i + 10)
       (groups @ [g. Some g \<leftarrow> fst (check_batch cl me (take 10 (drop i dialogs)) w)])
       (snd (check_batch cl me (take 10 (drop i dialogs)) w))"
  by (subst check_batches.simps) (simp add: case_prod_unfold)

lemma check_batches_done:
  "\<not> i < length dialogs \<Longrightarrow> check_batches cl me dialogs i groups w = (groups, w)"
  by (subst check_batches.simps) simp

lemma check_batches_eq:
  "check_batches cl me dialogs i groups w =
     (groups @ map scope_of (moderated cl me (calls w) (drop i dialogs)),
      w\<lparr>calls := calls w @ check_requests me (drop i dialogs)\<rparr>)"
proof (induction "length dialogs - i" arbitrary: i groups w rule: less_induct)
  case less
  show ?case
  proof (cases "i < length dialogs")
    case False
    then show ?thesis by (simp add: check_batches_done)
  next
    case True
    let ?b = "take 10 (drop i dialogs)"
    let ?r = "drop (i + 10) dialogs"
    let ?w1 = "w\<lparr>calls := calls w @ check_requests me ?b\<rparr>"
    have smaller: "length dialogs - (i + 10) < length dialogs - i"
      using True by simp
    have split: "drop i dialogs = ?b @ ?r"
      by (rule drop_batch_split)
    have "check_batches cl me dialogs i groups w =
        check_batches cl me dialogs (i + 10)
          (groups @ map scope_of (moderated cl me (calls w) ?b)) ?w1"
      unfolding check_batches_unfold [OF True] check_batch_kept
      by (simp add: check_batch_eq)
    also have "\<dots> =
        ((groups @ map scope_of (moderated cl me (calls w) ?b))
           @ map scope_of (moderated cl me (calls ?w1) ?r),
         ?w1\<lparr>calls := calls ?w1 @ check_requests me ?r\<rparr>)"
      by (rule less.hyps [OF smaller])
    also have "\<dots> =
        (groups @ map scope_of (moderated cl me (calls w) (?b @ ?r)),
         w\<lparr>calls := calls w @ check_requests me (?b @ ?r)\<rparr>)"
      by (simp add: moderated_append)
    finally show ?thesis
      using split by simp
  qed
qed

lemma refresh_groups_success:
  assumes "get_me cl (calls w) = Inr me"
    and "iter_dialogs cl (calls w @ [GetMe]) = (yielded, None)"
  shows "fst (refresh_groups cl w) =
     Inr (map scope_of (moderated cl me (calls w @ [GetMe, IterDialogs])
            (filter (\<lambda>d. is_group d \<or> is_channel d) yielded)))"
  using assms
  by (simp add: refresh_groups_def refresh_after_me_def check_batches_eq)

lemma refresh_groups_failure:
  assumes "get_me cl (calls w) = Inl e
     \<or> (get_me cl (calls w) = Inr me \<and> snd (iter_dialogs cl (calls w @ [GetMe])) = Some e)"
  shows "fst (refresh_groups cl w) = Inl e"
  using assms
  by (auto simp: refresh_groups_def refresh_after_me_def split: prod.split option.split)

lemma get_managed_groups_cold:
  "data c = [] \<Longrightarrow> get_managed_groups cl c w = store_groups cl (refresh_groups cl w) c"
  by (simp add: get_managed_groups_def cache_hit_def)

lemma store_groups_success:
  "fst outcome = Inr groups \<Longrightarrow>
   fst (store_groups cl outcome c) = groups \<and> data (fst (snd (store_groups cl outcome c))) = groups"
  by (cases outcome) (simp add: store_groups_def)

lemma store_groups_failure:
  "fst outcome = Inl e \<Longrightarrow>
   fst (store_groups cl outcome c) = [] \<and> fst (snd (store_groups cl outcome c)) = c"
  by (cases outcome) (simp add: store_groups_def)

text \<open>
  Claim C5.  A call on a cache without data refreshes.  When \<^verbatim>\<open>get_me\<close> and the
  iteration over the dialogs succeed, the call returns, and the cache then holds, the
  dialogs that are groups or channels and whose check was answered with the right to
  ban, in the order of the iteration: a check that raises or reports no such right leaves
  its dialog out and nothing else.  When \<^verbatim>\<open>get_me\<close> or the iteration raises, the call
  returns the empty list and leaves the cache as it was.
\<close>

theorem refresh_caches_moderated_groups:
  assumes "data c = []"
  shows "(get_me cl (calls w) = Inr me \<and> iter_dialogs cl (calls w @ [GetMe]) = (yielded, None)
          \<longrightarrow> fst (get_managed_groups cl c w)
                = map scope_of (moderated cl me (calls w @ [GetMe, IterDialogs])
                    (filter (\<lambda>d. is_group d \<or> is_channel d) yielded))
            \<and> data (fst (snd (get_managed_groups cl c w))) = fst (get_managed_groups cl c w))
       \<and> (get_me cl (calls w) = Inl e
            \<or> (get_me cl (calls w) = Inr me \<and> snd (iter_dialogs cl (calls w @ [GetMe])) = Some e)
          \<longrightarrow> fst (get_managed_groups cl c w) = []
            \<and> fst (snd (get_managed_groups cl c w)) = c)"
proof (intro conjI impI)
  assume ok: "get_me cl (calls w) = Inr me \<and> iter_dialogs cl (calls w @ [GetMe]) = (yielded, None)"
  let ?found = "map scope_of (moderated cl me (calls w @ [GetMe, IterDialogs])
                    (filter (\<lambda>d. is_group d \<or> is_channel d) yielded))"
  from ok have r: "fst (refresh_groups cl w) = Inr ?found"
    by (simp add: refresh_groups_success)
  from store_groups_success [OF r, of cl c]
  show "fst (get_managed_groups cl c w) = ?found"
    and "data (fst (snd (get_managed_groups cl c w))) = fst (get_managed_groups cl c w)"
    by (simp_all add: get_managed_groups_cold [OF assms])
next
  assume bad: "get_me cl (calls w) = Inl e
     \<or> (get_me cl (calls w) = Inr me \<and> snd (iter_dialogs cl (calls w @ [GetMe])) = Some e)"
  then have r: "fst (refresh_groups cl w) = Inl e"
    by (rule refresh_groups_failure)
  from store_groups_failure [OF r, of cl c]
  show "fst (get_managed_groups cl c w) = []"
    and "fst (snd (get_managed_groups cl c w)) = c"
    by (simp_all add: get_managed_groups_cold [OF assms])
qed

lemma moderated_account12:
  "map scope_of (moderated account12 99 sofar (filter (\<lambda>d. is_group d \<or> is_channel d) dialogs12))
     = scopes7"
  by (simp add: dialogs12_def dialog12_def moderated_Cons account12_def role12_def
        reports_ban_rights_def scope_of_def scopes7_def)

theorem refresh_caches_moderated_groups_witness:
  "data empty_cache = []
   \<and> fst (get_managed_groups account12 empty_cache world0) = scopes7
   \<and> data (fst (snd (get_managed_groups account12 empty_cache world0))) = scopes7"
proof -
  have cold: "data empty_cache = []" by (simp add: empty_cache_def)
  have me: "get_me account12 (calls world0) = Inr 99" by (simp add: account12_def)
  have ds: "iter_dialogs account12 (calls world0 @ [GetMe]) = (dialogs12, None)"
    by (simp add: account12_def)
  from refresh_caches_moderated_groups [OF cold, of account12 world0 99 dialogs12] me ds
  show ?thesis
    by (simp add: moderated_account12 cold)
qed

section \<open>Properties of concurrent calls of \<^verbatim>\<open>get_managed_groups\<close>\<close>

lemma cache_hit_iff: "cache_hit now c = (data c \<noteq> [])"
  by (simp add: cache_hit_def CACHE_DURATION_def)

lemma count_update:
  "i < length xs \<Longrightarrow>
   length (filter P (xs[i := y])) + (if P (xs ! i) then 1 else 0)
     = length (filter P xs) + (if P y then 1 else 0)"
proof (induction xs arbitrary: i)
  case Nil
  then show ?case by simp
next
  case (Cons x xs)
  show ?case
  proof (cases i)
    case 0
    then show ?thesis by simp
  next
    case (Suc j)
    with Cons.prems have "j < length xs" by simp
    from Cons.IH [OF this] Suc show ?thesis by simp
  qed
qed


text \<open>The things a step can do.\<close>

lemma step_cases:
  obtains (same) "step cl s i = s"
  | (returns_cache) ws where "i < length (tasks s)"
      "(tasks s ! i = Idle \<and> ws = waiters s)
       \<or> (tasks s ! i = AwaitLock \<and> \<not> lock_held s \<and> waiters s = i # ws)"
      "data (cache s) \<noteq> []"
      "step cl s i = s\<lparr>waiters := ws, tasks := (tasks s)[i := Done (data (cache s))]\<rparr>"
  | (waits) "i < length (tasks s)" "tasks s ! i = Idle" "data (cache s) = []"
      "lock_held s \<or> waiters s \<noteq> []"
      "step cl s i = s\<lparr>waiters := waiters s @ [i], tasks := (tasks s)[i := AwaitLock]\<rparr>"
  | (begins) ws where "i < length (tasks s)"
      "(tasks s ! i = Idle \<and> waiters s = [] \<and> ws = [])
       \<or> (tasks s ! i = AwaitLock \<and> waiters s = i # ws)"
      "data (cache s) = []" "\<not> lock_held s"
      "step cl s i = s\<lparr>waiters := ws, lock_held := True,
         tasks := (tasks s)[i := AwaitMe (get_me cl (calls (net s)))], net := sent GetMe (net s)\<rparr>"
  | (ends) r where "i < length (tasks s)" "tasks s ! i = AwaitMe r"
      "step cl s i =
         s\<lparr>cache := fst (snd (store_groups cl (refresh_after_me cl r (net s)) (cache s))),
           lock_held := False,
           tasks := (tasks s)[i := Done (fst (store_groups cl (refresh_after_me cl r (net s)) (cache s)))],
           net := snd (snd (store_groups cl (refresh_after_me cl r (net s)) (cache s)))\<rparr>"
proof (cases "i < length (tasks s)")
  case False
  then have "step cl s i = s" by (simp add: step_def)
  then show ?thesis by (rule same)
next
  case len: True
  show ?thesis
  proof (cases "tasks s ! i")
    case Idle
    show ?thesis
    proof (cases "data (cache s) = []")
      case False
      with len Idle
      have "step cl s i = s\<lparr>waiters := waiters s, tasks := (tasks s)[i := Done (data (cache s))]\<rparr>"
        by (simp add: step_def cache_hit_iff)
      with len Idle False show ?thesis by (intro returns_cache [of "waiters s"]) auto
    next
      case True
      show ?thesis
      proof (cases "\<not> lock_held s \<and> waiters s = []")
        case False
        with len Idle True
        have "step cl s i = s\<lparr>waiters := waiters s @ [i], tasks := (tasks s)[i := AwaitLock]\<rparr>"
          by (auto simp: step_def cache_hit_iff)
        with len Idle True False show ?thesis by (intro waits) auto
      next
        case free: True
        with len Idle True
        have "step cl s i = s\<lparr>waiters := [], lock_held := True,
            tasks := (tasks s)[i := AwaitMe (get_me cl (calls (net s)))], net := sent GetMe (net s)\<rparr>"
          by (simp add: step_def enter_lock_def cache_hit_iff)
        with len Idle True free show ?thesis by (intro begins [of "[]"]) auto
      qed
    qed
  next
    case AwaitLock
    show ?thesis
    proof (cases "\<not> lock_held s \<and> (\<exists>ws. waiters s = i # ws)")
      case False
      with len AwaitLock have "step cl s i = s"
        by (auto simp: step_def split: list.split)
      then show ?thesis by (rule same)
    next
      case True
      then obtain ws where free: "\<not> lock_held s" and ws: "waiters s = i # ws" by blast
      show ?thesis
      proof (cases "data (cache s) = []")
        case False
        with len AwaitLock free ws
        have "step cl s i = s\<lparr>waiters := ws, tasks := (tasks s)[i := Done (data (cache s))]\<rparr>"
          by (simp add: step_def enter_lock_def cache_hit_iff)
        with len AwaitLock free ws False show ?thesis by (intro returns_cache [of ws]) auto
      next
        case True
        with len AwaitLock free ws
        have "step cl s i = s\<lparr>waiters := ws, lock_held := True,
            tasks := (tasks s)[i := AwaitMe (get_me cl (calls (net s)))], net := sent GetMe (net s)\<rparr>"
          by (simp add: step_def enter_lock_def cache_hit_iff)
        with len AwaitLock free ws True show ?thesis by (intro begins [of ws]) auto
      qed
    qed
  next
    case (AwaitMe r)
    with len have "step cl s i =
         s\<lparr>cache := fst (snd (store_groups cl (refresh_after_me cl r (net s)) (cache s))),
           lock_held := False,
           tasks := (tasks s)[i := Done (fst (store_groups cl (refresh_after_me cl r (net s)) (cache s)))],
           net := snd (snd (store_groups cl (refresh_after_me cl r (net s)) (cache s)))\<rparr>"
      by (simp add: step_def case_prod_unfold)
    with len AwaitMe show ?thesis by (intro ends) auto
  next
    case (Done groups)
    with len have "step cl s i = s" by (simp add: step_def)
    then show ?thesis by (rule same)
  qed
qed





lemma no_GetMe_in_checks: "filter (\<lambda>r. r = GetMe) (check_requests me ds) = []"
  by (induction ds) simp_all

lemma refresh_after_me_GetMe:
  "filter (\<lambda>r. r = GetMe) (calls (snd (refresh_after_me cl r w))) = filter (\<lambda>r. r = GetMe) (calls w)"
  by (simp add: refresh_after_me_def check_batches_eq no_GetMe_in_checks
           split: sum.split prod.split option.split)

lemma store_groups_calls:
  "calls (snd (snd (store_groups cl outcome c))) = calls (snd outcome)"
  by (cases outcome) (simp add: store_groups_def split: sum.split)



subsection \<open>The queue of the lock\<close>








lemma length_tasks_step [simp]: "length (tasks (step cl s i)) = length (tasks s)"
  by (cases rule: step_cases [of cl s i]) simp_all

lemma length_tasks_run [simp]: "length (tasks (run cl sched s)) = length (tasks s)"
  by (induction sched arbitrary: s) simp_all


subsection \<open>What one step of a task does\<close>


lemma step_done:
  assumes "i < length (tasks s)" "tasks s ! i = Done groups"
  shows "step cl s i = s"
  using assms by (simp add: step_def)

lemma step_begins:
  assumes "i < length (tasks s)" "tasks s ! i = Idle" "data (cache s) = []"
    "\<not> lock_held s" "waiters s = []"
  shows "step cl s i = s\<lparr>lock_held := True,
         tasks := (tasks s)[i := AwaitMe (get_me cl (calls (net s)))], net := sent GetMe (net s)\<rparr>"
  using assms by (simp add: step_def enter_lock_def cache_hit_iff)

lemma step_waits:
  assumes "i < length (tasks s)" "tasks s ! i = Idle" "data (cache s) = []"
    "lock_held s \<or> waiters s \<noteq> []"
  shows "step cl s i = s\<lparr>waiters := waiters s @ [i], tasks := (tasks s)[i := AwaitLock]\<rparr>"
  using assms by (auto simp: step_def cache_hit_iff)

lemma step_woken_returns_cache:
  assumes "i < length (tasks s)" "tasks s ! i = AwaitLock" "\<not> lock_held s"
    "waiters s = i # rest" "data (cache s) \<noteq> []"
  shows "step cl s i = s\<lparr>waiters := rest, tasks := (tasks s)[i := Done (data (cache s))]\<rparr>"
  using assms by (simp add: step_def enter_lock_def cache_hit_iff)

lemma step_woken_begins:
  assumes "i < length (tasks s)" "tasks s ! i = AwaitLock" "\<not> lock_held s"
    "waiters s = i # rest" "data (cache s) = []"
  shows "step cl s i = s\<lparr>waiters := rest, lock_held := True,
         tasks := (tasks s)[i := AwaitMe (get_me cl (calls (net s)))], net := sent GetMe (net s)\<rparr>"
  using assms by (simp add: step_def enter_lock_def cache_hit_iff)

lemma step_ends:
  assumes "i < length (tasks s)" "tasks s ! i = AwaitMe r"
  shows "step cl s i =
         s\<lparr>cache := fst (snd (store_groups cl (refresh_after_me cl r (net s)) (cache s))),
           lock_held := False,
           tasks := (tasks s)[i := Done (fst (store_groups cl (refresh_after_me cl r (net s)) (cache s)))],
           net := snd (snd (store_groups cl (refresh_after_me cl r (net s)) (cache s)))\<rparr>"
  using assms by (simp add: step_def case_prod_unfold)

subsection \<open>Every caller can return\<close>






subsection \<open>One refresh serves every caller when it finds a group\<close>





lemma refreshes_begin:
  "refreshes (s\<lparr>waiters := ws, lock_held := True, tasks := ts, net := sent GetMe (net s)\<rparr>)
     = refreshes s + 1"
  by (simp add: refreshes_def sent_def)



lemma account12_refresh: "fst (refresh_groups account12 w) = Inr scopes7"
proof -
  have "get_me account12 (calls w) = Inr 99"
    and "iter_dialogs account12 (calls w @ [GetMe]) = (dialogs12, None)"
    by (simp_all add: account12_def)
  from refresh_groups_success [OF this] show ?thesis
    by (simp add: moderated_account12)
qed

lemma scopes7_not_empty: "scopes7 \<noteq> []"
  by (simp add: scopes7_def)





subsection \<open>The command \<^verbatim>\<open>refresh\<close>\<close>

lemma refreshes_store_groups:
  "length (filter (\<lambda>r. r = GetMe) (calls (snd (snd (store_groups cl (refresh_groups cl w) c)))))
     = Suc (length (filter (\<lambda>r. r = GetMe) (calls w)))"
  by (simp add: store_groups_calls refresh_groups_def refresh_after_me_GetMe)

lemma refresh_in_two_steps:
  assumes "i < length (tasks s)" and "data (cache s) = []"
    and "step cl s i = s\<lparr>waiters := ws, lock_held := True,
         tasks := (tasks s)[i := AwaitMe (get_me cl (calls (net s)))], net := sent GetMe (net s)\<rparr>"
  shows "tasks (step cl (step cl s i) i) ! i = Done (fst (get_managed_groups cl (cache s) (net s)))
       \<and> cache (step cl (step cl s i) i) = fst (snd (get_managed_groups cl (cache s) (net s)))
       \<and> refreshes (step cl (step cl s i) i) = refreshes s + 1"
proof -
  let ?s1 = "s\<lparr>waiters := ws, lock_held := True,
         tasks := (tasks s)[i := AwaitMe (get_me cl (calls (net s)))], net := sent GetMe (net s)\<rparr>"
  have out: "store_groups cl (refresh_after_me cl (get_me cl (calls (net s))) (sent GetMe (net s))) (cache s)
      = get_managed_groups cl (cache s) (net s)"
    using assms(2) by (simp add: get_managed_groups_cold refresh_groups_def)
  have two: "step cl ?s1 i =
      ?s1\<lparr>cache := fst (snd (get_managed_groups cl (cache s) (net s))),
          lock_held := False,
          tasks := (tasks ?s1)[i := Done (fst (get_managed_groups cl (cache s) (net s)))],
          net := snd (snd (get_managed_groups cl (cache s) (net s)))\<rparr>"
    using step_ends [of i ?s1 "get_me cl (calls (net s))" cl] assms(1) out by simp
  have count: "refreshes (step cl ?s1 i) = refreshes s + 1"
    unfolding two
    using refreshes_store_groups [of cl "net s" "cache s"] assms(2)
    by (simp add: refreshes_def get_managed_groups_cold)
  from assms(1) count show ?thesis
    unfolding assms(3) two by simp
qed

text \<open>
  Claim C8, as the code has it.  The command empties the cache and calls
  \<^verbatim>\<open>get_managed_groups\<close> at once.

  \<^item> When no other task holds the lock or waits for it, the task begins one refresh and,
    run again, returns what \<^verbatim>\<open>get_managed_groups\<close> returns on an empty cache: the groups
    that refresh found (the empty list when it raised).  Exactly one refresh was begun,
    and neither the result nor the new cache depends on what the cache held before.
  \<^item> When another task holds the lock or waits for it, the command has emptied the cache,
    joins the end of the queue of the lock and sends nothing.
  \<^item> When the lock is free and the task is the first of the queue, it reads the cache
    again: it returns a list that a refresh has stored meanwhile without sending anything,
    and when the cache still has no data (the refresh found nothing or raised) it begins
    a refresh of its own and, run again, returns what \<^verbatim>\<open>get_managed_groups\<close> returns.
\<close>

theorem refresh_command_refreshes_once:
  assumes "i < length (tasks s)" and "tasks s ! i = Idle"
  shows "(\<not> lock_held s \<and> waiters s = [] \<longrightarrow>
            tasks (step cl (refresh_cache cl s i) i) ! i
              = Done (fst (get_managed_groups cl empty_cache (net s)))
          \<and> cache (step cl (refresh_cache cl s i) i)
              = fst (snd (get_managed_groups cl empty_cache (net s)))
          \<and> refreshes (step cl (refresh_cache cl s i) i) = refreshes s + 1)
       \<and> (lock_held s \<or> waiters s \<noteq> [] \<longrightarrow>
            refresh_cache cl s i
              = s\<lparr>cache := empty_cache, waiters := waiters s @ [i],
                  tasks := (tasks s)[i := AwaitLock]\<rparr>)
       \<and> (\<forall>t rest. i < length (tasks t) \<and> tasks t ! i = AwaitLock \<and> \<not> lock_held t
              \<and> waiters t = i # rest \<longrightarrow>
            (data (cache t) \<noteq> [] \<longrightarrow>
               step cl t i = t\<lparr>waiters := rest, tasks := (tasks t)[i := Done (data (cache t))]\<rparr>)
            \<and> (data (cache t) = [] \<longrightarrow>
                 is_refreshing (tasks (step cl t i) ! i)
                 \<and> refreshes (step cl t i) = refreshes t + 1
                 \<and> tasks (step cl (step cl t i) i) ! i
                     = Done (fst (get_managed_groups cl (cache t) (net t)))
                 \<and> cache (step cl (step cl t i) i)
                     = fst (snd (get_managed_groups cl (cache t) (net t)))
                 \<and> refreshes (step cl (step cl t i) i) = refreshes t + 1))"
proof -
  let ?s0 = "s\<lparr>cache := empty_cache\<rparr>"
  have command: "refresh_cache cl s i = step cl ?s0 i"
    using assms by (simp add: refresh_cache_def)
  have pre: "i < length (tasks ?s0)" "tasks ?s0 ! i = Idle" "data (cache ?s0) = []"
    using assms by (simp_all add: empty_cache_def)
  have alone: "\<not> lock_held s \<and> waiters s = [] \<longrightarrow>
            tasks (step cl (refresh_cache cl s i) i) ! i
              = Done (fst (get_managed_groups cl empty_cache (net s)))
          \<and> cache (step cl (refresh_cache cl s i) i)
              = fst (snd (get_managed_groups cl empty_cache (net s)))
          \<and> refreshes (step cl (refresh_cache cl s i) i) = refreshes s + 1"
  proof
    assume free: "\<not> lock_held s \<and> waiters s = []"
    then have "\<not> lock_held ?s0" "waiters ?s0 = []" by simp_all
    from step_begins [OF pre this, of cl]
    have "step cl ?s0 i = ?s0\<lparr>waiters := [], lock_held := True,
         tasks := (tasks ?s0)[i := AwaitMe (get_me cl (calls (net ?s0)))],
         net := sent GetMe (net ?s0)\<rparr>"
      using free by simp
    from refresh_in_two_steps [OF pre(1,3) this]
    show "tasks (step cl (refresh_cache cl s i) i) ! i
              = Done (fst (get_managed_groups cl empty_cache (net s)))
          \<and> cache (step cl (refresh_cache cl s i) i)
              = fst (snd (get_managed_groups cl empty_cache (net s)))
          \<and> refreshes (step cl (refresh_cache cl s i) i) = refreshes s + 1"
      unfolding command by (simp add: refreshes_def)
  qed
  have queues: "lock_held s \<or> waiters s \<noteq> [] \<longrightarrow>
            refresh_cache cl s i
              = s\<lparr>cache := empty_cache, waiters := waiters s @ [i],
                  tasks := (tasks s)[i := AwaitLock]\<rparr>"
  proof
    assume "lock_held s \<or> waiters s \<noteq> []"
    then have "lock_held ?s0 \<or> waiters ?s0 \<noteq> []" by simp
    from step_waits [OF pre this, of cl]
    show "refresh_cache cl s i
              = s\<lparr>cache := empty_cache, waiters := waiters s @ [i],
                  tasks := (tasks s)[i := AwaitLock]\<rparr>"
      unfolding command by simp
  qed
  have woken: "\<forall>t rest. i < length (tasks t) \<and> tasks t ! i = AwaitLock \<and> \<not> lock_held t
              \<and> waiters t = i # rest \<longrightarrow>
            (data (cache t) \<noteq> [] \<longrightarrow>
               step cl t i = t\<lparr>waiters := rest, tasks := (tasks t)[i := Done (data (cache t))]\<rparr>)
            \<and> (data (cache t) = [] \<longrightarrow>
                 is_refreshing (tasks (step cl t i) ! i)
                 \<and> refreshes (step cl t i) = refreshes t + 1
                 \<and> tasks (step cl (step cl t i) i) ! i
                     = Done (fst (get_managed_groups cl (cache t) (net t)))
                 \<and> cache (step cl (step cl t i) i)
                     = fst (snd (get_managed_groups cl (cache t) (net t)))
                 \<and> refreshes (step cl (step cl t i) i) = refreshes t + 1)"
  proof (intro allI impI)
    fix t :: system and rest
    assume "i < length (tasks t) \<and> tasks t ! i = AwaitLock \<and> \<not> lock_held t
              \<and> waiters t = i # rest"
    then have i: "i < length (tasks t)" "tasks t ! i = AwaitLock" "\<not> lock_held t"
      "waiters t = i # rest"
      by simp_all
    have hit: "data (cache t) \<noteq> [] \<longrightarrow>
        step cl t i = t\<lparr>waiters := rest, tasks := (tasks t)[i := Done (data (cache t))]\<rparr>"
      using step_woken_returns_cache [OF i] by blast
    have miss: "data (cache t) = [] \<longrightarrow>
                 is_refreshing (tasks (step cl t i) ! i)
                 \<and> refreshes (step cl t i) = refreshes t + 1
                 \<and> tasks (step cl (step cl t i) i) ! i
                     = Done (fst (get_managed_groups cl (cache t) (net t)))
                 \<and> cache (step cl (step cl t i) i)
                     = fst (snd (get_managed_groups cl (cache t) (net t)))
                 \<and> refreshes (step cl (step cl t i) i) = refreshes t + 1"
    proof
      assume empty: "data (cache t) = []"
      note begun = step_woken_begins [OF i empty, of cl]
      have "is_refreshing (tasks (step cl t i) ! i)" "refreshes (step cl t i) = refreshes t + 1"
        unfolding begun using i(1) by (simp_all add: refreshes_begin)
      with refresh_in_two_steps [OF i(1) empty begun]
      show "is_refreshing (tasks (step cl t i) ! i)
                 \<and> refreshes (step cl t i) = refreshes t + 1
                 \<and> tasks (step cl (step cl t i) i) ! i
                     = Done (fst (get_managed_groups cl (cache t) (net t)))
                 \<and> cache (step cl (step cl t i) i)
                     = fst (snd (get_managed_groups cl (cache t) (net t)))
                 \<and> refreshes (step cl (step cl t i) i) = refreshes t + 1"
        by (intro conjI) simp_all
    qed
    from hit miss
    show "(data (cache t) \<noteq> [] \<longrightarrow>
               step cl t i = t\<lparr>waiters := rest, tasks := (tasks t)[i := Done (data (cache t))]\<rparr>)
            \<and> (data (cache t) = [] \<longrightarrow>
                 is_refreshing (tasks (step cl t i) ! i)
                 \<and> refreshes (step cl t i) = refreshes t + 1
                 \<and> tasks (step cl (step cl t i) i) ! i
                     = Done (fst (get_managed_groups cl (cache t) (net t)))
                 \<and> cache (step cl (step cl t i) i)
                     = fst (snd (get_managed_groups cl (cache t) (net t)))
                 \<and> refreshes (step cl (step cl t i) i) = refreshes t + 1)" ..
  qed
  from alone queues woken show ?thesis
    by (intro conjI)
qed
lemma get_managed_groups_account12:
  "fst (get_managed_groups account12 empty_cache w) = scopes7"
  using store_groups_success [OF account12_refresh, of account12 w empty_cache]
  by (simp add: get_managed_groups_cold empty_cache_def)

theorem refresh_command_refreshes_once_witness:
  "0 < length (tasks stale_system) \<and> tasks stale_system ! 0 = Idle
   \<and> \<not> lock_held stale_system \<and> waiters stale_system = []
   \<and> data (cache stale_system) = [\<lparr>gid = 77, title = ''left long ago''\<rparr>]
   \<and> tasks (step account12 (refresh_cache account12 stale_system 0) 0) ! 0 = Done scopes7
   \<and> refreshes (step account12 (refresh_cache account12 stale_system 0) 0) = 1
   \<and> 1 < length (tasks (busy account12)) \<and> tasks (busy account12) ! 1 = Idle
   \<and> lock_held (busy account12)
   \<and> tasks (refresh_cache account12 (busy account12) 1) ! 1 = AwaitLock
   \<and> waiters (refresh_cache account12 (busy account12) 1) = [1]
   \<and> net (refresh_cache account12 (busy account12) 1) = net (busy account12)
   \<and> tasks (handed_over account12) ! 1 = AwaitLock
   \<and> \<not> lock_held (handed_over account12)
   \<and> waiters (handed_over account12) = [1]
   \<and> data (cache (handed_over account12)) = scopes7
   \<and> tasks (step account12 (handed_over account12) 1) ! 1 = Done scopes7
   \<and> refreshes (step account12 (handed_over account12) 1) = 1
   \<and> 1 < length (tasks (busy barren_account)) \<and> tasks (busy barren_account) ! 1 = Idle
   \<and> tasks (handed_over barren_account) ! 1 = AwaitLock
   \<and> \<not> lock_held (handed_over barren_account)
   \<and> waiters (handed_over barren_account) = [1]
   \<and> data (cache (handed_over barren_account)) = []
   \<and> refreshes (handed_over barren_account) = 1
   \<and> tasks (step barren_account (step barren_account (handed_over barren_account) 1) 1) ! 1
       = Done []
   \<and> refreshes (step barren_account (step barren_account (handed_over barren_account) 1) 1) = 2"
proof -
  have s1: "0 < length (tasks stale_system)" and s2: "tasks stale_system ! 0 = Idle"
    and s3: "\<not> lock_held stale_system \<and> waiters stale_system = []"
    and s4: "data (cache stale_system) = [\<lparr>gid = 77, title = ''left long ago''\<rparr>]"
    by (simp_all add: stale_system_def)
  have s5: "refreshes stale_system = 0"
    by (simp add: refreshes_def stale_system_def world0_def)
  note alone = refresh_command_refreshes_once [OF s1 s2, of account12, THEN conjunct1,
      rule_format, OF s3]
  from alone s5
  have alone': "tasks (step account12 (refresh_cache account12 stale_system 0) 0) ! 0 = Done scopes7"
    "refreshes (step account12 (refresh_cache account12 stale_system 0) 0) = 1"
    by (simp_all add: get_managed_groups_account12)
  have b1: "1 < length (tasks (busy account12))" and b2: "tasks (busy account12) ! 1 = Idle"
    and b3: "lock_held (busy account12)"
    by code_simp+
  from b3 have b4: "lock_held (busy account12) \<or> waiters (busy account12) \<noteq> []" ..
  note meets = refresh_command_refreshes_once [OF b1 b2, of account12]
  note queued = meets [THEN conjunct2, THEN conjunct1, rule_format, OF b4]
  have b5: "waiters (busy account12) = []" by code_simp
  have queued': "tasks (refresh_cache account12 (busy account12) 1) ! 1 = AwaitLock"
    "waiters (refresh_cache account12 (busy account12) 1) = [1]"
    "net (refresh_cache account12 (busy account12) 1) = net (busy account12)"
    unfolding queued using b1 b5 by simp_all
  have h: "1 < length (tasks (handed_over account12))
      \<and> tasks (handed_over account12) ! 1 = AwaitLock
      \<and> \<not> lock_held (handed_over account12) \<and> waiters (handed_over account12) = [1]"
    and h1: "tasks (handed_over account12) ! 1 = AwaitLock"
    and h2: "\<not> lock_held (handed_over account12)"
    and h3: "waiters (handed_over account12) = [1]"
    and h4: "data (cache (handed_over account12)) = scopes7"
    and h5: "refreshes (handed_over account12) = 1"
    and h6: "1 < length (tasks (handed_over account12))"
    by code_simp+
  from h4 scopes7_not_empty have h7: "data (cache (handed_over account12)) \<noteq> []" by simp
  note served = meets [THEN conjunct2, THEN conjunct2, rule_format, OF h, THEN conjunct1,
      rule_format, OF h7]
  have served': "tasks (step account12 (handed_over account12) 1) ! 1 = Done scopes7"
    "refreshes (step account12 (handed_over account12) 1) = 1"
    unfolding served using h6 h4 h5 by (simp_all add: refreshes_def)
  have c1: "1 < length (tasks (busy barren_account))"
    and c2: "tasks (busy barren_account) ! 1 = Idle"
    by code_simp+
  have g: "1 < length (tasks (handed_over barren_account))
      \<and> tasks (handed_over barren_account) ! 1 = AwaitLock
      \<and> \<not> lock_held (handed_over barren_account) \<and> waiters (handed_over barren_account) = [1]"
    and g1: "tasks (handed_over barren_account) ! 1 = AwaitLock"
    and g2: "\<not> lock_held (handed_over barren_account)"
    and g3: "waiters (handed_over barren_account) = [1]"
    and g4: "data (cache (handed_over barren_account)) = []"
    and g5: "refreshes (handed_over barren_account) = 1"
    and g6: "fst (get_managed_groups barren_account (cache (handed_over barren_account))
                (net (handed_over barren_account))) = []"
    by code_simp+
  note again = refresh_command_refreshes_once [OF c1 c2, of barren_account, THEN conjunct2,
      THEN conjunct2, rule_format, OF g, THEN conjunct2, rule_format, OF g4]
  from again g5 g6
  have again': "tasks (step barren_account (step barren_account (handed_over barren_account) 1) 1) ! 1
       = Done []"
    "refreshes (step barren_account (step barren_account (handed_over barren_account) 1) 1) = 2"
    by simp_all
  show ?thesis
    by (intro conjI) (fact s1 s2 s3 [THEN conjunct1] s3 [THEN conjunct2] s4 alone' b1 b2 b3
        queued' h1 h2 h3 h4 served' c1 c2 g1 g2 g3 g4 g5 again')+
qed

text \<open>
  The claim as the specification words it fails when another task is inside a refresh:
  task 0 has begun the only refresh when task 1 runs the command.  Task 1 empties the
  cache, waits for the lock, and under the lock finds the list task 0 stored: it returns
  that list and begins no refresh of its own.
\<close>

theorem refresh_command_counterexample:
  "refreshes (step account12 (cold 2) 0) = 1
   \<and> tasks (refresh_cache account12 (step account12 (cold 2) 0) 1) ! 1 = AwaitLock
   \<and> tasks refresh_meets_refresh ! 1 = Done scopes7
   \<and> refreshes refresh_meets_refresh = 1"
  by code_simp

section \<open>Properties of the dispatcher in time\<close>













section \<open>Properties of the racing resolver\<close>

lemma leave_fields [simp]:
  "probes (leave k s) = (probes s)[k := Finished]"
  "slots (leave k s) = slots s + 1"
  "found_user (leave k s) = found_user s"
  "done_event (leave k s) = done_event s"
  "resolved (leave k s) = resolved s"
  "entities (leave k s) = entities s"
  "wire (leave k s) = wire s"
  by (simp_all add: leave_def)

lemma report_fields [simp]:
  "probes (report k u s) = (probes s)[k := Finished]"
  "slots (report k u s) = slots s + 1"
  "found_user (report k u s) = Some u"
  "done_event (report k u s) = True"
  "resolved (report k u s) = resolved s"
  "entities (report k u s) = entities s"
  "wire (report k u s) = wire s"
  by (simp_all add: report_def)

lemma start_scan_fields [simp]:
  "probes (start_scan cl groups limit k s)
     = (probes s)[k := Scanning (fst (iter_participants cl (calls (wire s)) (gid (groups ! k)) limit))
                               (snd (iter_participants cl (calls (wire s)) (gid (groups ! k)) limit))]"
  "slots (start_scan cl groups limit k s) = slots s"
  "found_user (start_scan cl groups limit k s) = found_user s"
  "done_event (start_scan cl groups limit k s) = done_event s"
  "resolved (start_scan cl groups limit k s) = resolved s"
  "entities (start_scan cl groups limit k s) = entities s"
  "wire (start_scan cl groups limit k s) = sent (IterParticipants (gid (groups ! k)) limit) (wire s)"
  by (simp_all add: start_scan_def case_prod_unfold)

lemma cancel_all_fields [simp]:
  "probes (cancel_all s) = map (\<lambda>p. Finished) (probes s)"
  "slots (cancel_all s) = slots s + holders s"
  "found_user (cancel_all s) = found_user s"
  "done_event (cancel_all s) = done_event s"
  "resolved (cancel_all s) = resolved s"
  "entities (cancel_all s) = entities s"
  "wire (cancel_all s) = wire s"
  by (simp_all add: cancel_all_def)

text \<open>What the resolver does when it leaves its loop.\<close>

lemma poll_returns:
  assumes "resolved s = None" "done_event s \<or> \<not> list_ex (\<lambda>p. p \<noteq> Finished) (probes s)"
  shows "probes (poll cl uid s) = (if done_event s then map (\<lambda>p. Finished) (probes s) else probes s)"
    and "slots (poll cl uid s) = (if done_event s then slots s + holders s else slots s)"
    and "found_user (poll cl uid s) = found_user s"
    and "done_event (poll cl uid s) = done_event s"
    and "resolved (poll cl uid s) = Some (found_user s)"
    and "wire (poll cl uid s) = wire s"
    and "entities (poll cl uid s) =
          (case found_user s of
             None \<Rightarrow> entities s
           | Some user \<Rightarrow>
               (entities s)(uid \<mapsto> \<lparr>cached_data = Some user, cached_at = clock cl (calls (wire s))\<rparr>))"
  using assms by (auto simp: poll_def Let_def split: option.split)

lemma poll_sleeps:
  assumes "resolved s \<noteq> None \<or> (\<not> done_event s \<and> list_ex (\<lambda>p. p \<noteq> Finished) (probes s))"
  shows "poll cl uid s = s"
  using assms by (auto simp: poll_def)

text \<open>The steps of the race, one by one.\<close>

lemma race_step_cases:
  obtains (same) "race_step cl groups uid limit s ev = s"
  | (waits) k where "ev = Probe k" "k < length (probes s)" "k < length groups"
      "probes s ! k = Created" "slots s = 0"
      "race_step cl groups uid limit s ev = s\<lparr>probes := (probes s)[k := AwaitSlot]\<rparr>"
  | (skips) k where "ev = Probe k" "k < length (probes s)" "k < length groups"
      "probes s ! k = Created \<or> probes s ! k = AwaitSlot" "0 < slots s" "done_event s"
      "race_step cl groups uid limit s ev = s\<lparr>probes := (probes s)[k := Finished]\<rparr>"
  | (asks) k where "ev = Probe k" "k < length (probes s)" "k < length groups"
      "probes s ! k = Created \<or> probes s ! k = AwaitSlot" "0 < slots s" "\<not> done_event s"
      "race_step cl groups uid limit s ev =
         s\<lparr>slots := slots s - 1,
           probes := (probes s)
             [k := AwaitParticipant (get_participant cl (calls (wire s)) (gid (groups ! k)) uid)],
           wire := sent (GetParticipantRequest (gid (groups ! k)) uid) (wire s)\<rparr>"
  | (reports) k v where "ev = Probe k" "k < length (probes s)" "k < length groups"
      "(\<exists>a. probes s ! k = AwaitParticipant a \<and> answer_finds uid a = Some v)
       \<or> (\<exists>page rest err. probes s ! k = Scanning (page # rest) err \<and> find_user uid page = Some v)"
      "race_step cl groups uid limit s ev = report k v s"
  | (leaves) k w' where "ev = Probe k" "k < length (probes s)" "k < length groups"
      "calls w' = calls (wire s)"
      "(\<exists>a. probes s ! k = AwaitParticipant a \<and> answer_finds uid a = None \<and> done_event s)
       \<or> (\<exists>err. probes s ! k = Scanning [] err)
       \<or> (\<exists>page. probes s ! k = Scanning [page] None \<and> find_user uid page = None)"
      "race_step cl groups uid limit s ev = leave k (s\<lparr>wire := w'\<rparr>)"
  | (scans) k a where "ev = Probe k" "k < length (probes s)" "k < length groups"
      "probes s ! k = AwaitParticipant a" "answer_finds uid a = None" "\<not> done_event s"
      "race_step cl groups uid limit s ev = start_scan cl groups limit k s"
  | (more) k page rest err where "ev = Probe k" "k < length (probes s)" "k < length groups"
      "probes s ! k = Scanning (page # rest) err" "find_user uid page = None"
      "\<not> (rest = [] \<and> err = None)"
      "race_step cl groups uid limit s ev =
         s\<lparr>probes := (probes s)[k := Scanning rest err],
           wire := sent (MoreParticipants (gid (groups ! k))) (wire s)\<rparr>"
  | (returns) "ev = Poll" "resolved s = None"
      "done_event s \<or> \<not> list_ex (\<lambda>p. p \<noteq> Finished) (probes s)"
      "race_step cl groups uid limit s ev = poll cl uid s"
proof (cases ev)
  case Poll
  show ?thesis
  proof (cases "resolved s \<noteq> None \<or> (\<not> done_event s \<and> list_ex (\<lambda>p. p \<noteq> Finished) (probes s))")
    case True
    with Poll poll_sleeps [OF True] have "race_step cl groups uid limit s ev = s"
      by (simp add: race_step_def)
    then show ?thesis by (rule same)
  next
    case False
    with Poll show ?thesis by (intro returns) (auto simp: race_step_def)
  qed
next
  case (Probe k)
  show ?thesis
  proof (cases "k < length (probes s) \<and> k < length groups")
    case False
    with Probe have "race_step cl groups uid limit s ev = s"
      by (auto simp: race_step_def)
    then show ?thesis by (rule same)
  next
    case True
    then have k: "k < length (probes s)" "k < length groups" by simp_all
    have enter: thesis
      if st: "probes s ! k = Created \<or> probes s ! k = AwaitSlot" and free: "0 < slots s"
        and run: "race_step cl groups uid limit s ev = enter_slot cl groups uid limit k s"
    proof (cases "done_event s")
      case True
      with run have "race_step cl groups uid limit s ev = s\<lparr>probes := (probes s)[k := Finished]\<rparr>"
        by (simp add: enter_slot_def)
      with Probe k st free True show ?thesis by (intro skips)
    next
      case False
      with run have "race_step cl groups uid limit s ev =
         s\<lparr>slots := slots s - 1,
           probes := (probes s)
             [k := AwaitParticipant (get_participant cl (calls (wire s)) (gid (groups ! k)) uid)],
           wire := sent (GetParticipantRequest (gid (groups ! k)) uid) (wire s)\<rparr>"
        by (simp add: enter_slot_def USE_GET_PARTICIPANT_FIRST_def)
      with Probe k st free False show ?thesis by (intro asks)
    qed
    show ?thesis
    proof (cases "probes s ! k")
      case Created
      show ?thesis
      proof (cases "0 < slots s")
        case True
        with Probe k Created show ?thesis by (intro enter) (simp_all add: race_step_def)
      next
        case False
        with Probe k Created show ?thesis by (intro waits) (simp_all add: race_step_def)
      qed
    next
      case AwaitSlot
      show ?thesis
      proof (cases "0 < slots s")
        case True
        with Probe k AwaitSlot show ?thesis by (intro enter) (simp_all add: race_step_def)
      next
        case False
        with Probe k AwaitSlot have "race_step cl groups uid limit s ev = s"
          by (simp add: race_step_def)
        then show ?thesis by (rule same)
      qed
    next
      case (AwaitParticipant a)
      with Probe k have run: "race_step cl groups uid limit s ev = on_answer cl groups uid limit k a s"
        by (simp add: race_step_def)
      show ?thesis
      proof (cases "answer_finds uid a")
        case (Some v)
        with run have "race_step cl groups uid limit s ev = report k v s"
          by (simp add: on_answer_def)
        with Probe k AwaitParticipant Some show ?thesis by (intro reports) auto
      next
        case None
        show ?thesis
        proof (cases "done_event s")
          case True
          with run None have "race_step cl groups uid limit s ev = leave k (s\<lparr>wire := wire s\<rparr>)"
            by (simp add: on_answer_def)
          with Probe k AwaitParticipant None True show ?thesis by (intro leaves) auto
        next
          case False
          with run None have "race_step cl groups uid limit s ev = start_scan cl groups limit k s"
            by (simp add: on_answer_def)
          with Probe k AwaitParticipant None False show ?thesis by (intro scans)
        qed
      qed
    next
      case (Scanning pages err)
      with Probe k have run: "race_step cl groups uid limit s ev = on_page groups uid k pages err s"
        by (simp add: race_step_def)
      show ?thesis
      proof (cases pages)
        case Nil
        show ?thesis
        proof (cases err)
          case None
          with run Nil have "race_step cl groups uid limit s ev = leave k (s\<lparr>wire := wire s\<rparr>)"
            by (simp add: on_page_def)
          with Probe k Scanning Nil show ?thesis by (intro leaves) auto
        next
          case (Some e)
          with run Nil have "race_step cl groups uid limit s ev =
              leave k (s\<lparr>wire := logged (ScanGroupError (title (groups ! k)) uid e) (wire s)\<rparr>)"
            by (simp add: on_page_def)
          with Probe k Scanning Nil show ?thesis by (intro leaves) (auto simp: logged_def)
        qed
      next
        case (Cons page rest)
        show ?thesis
        proof (cases "find_user uid page")
          case (Some v)
          with run Cons have "race_step cl groups uid limit s ev = report k v s"
            by (simp add: on_page_def)
          with Probe k Scanning Cons Some show ?thesis by (intro reports) auto
        next
          case None
          show ?thesis
          proof (cases "rest = [] \<and> err = None")
            case True
            with run Cons None have "race_step cl groups uid limit s ev = leave k (s\<lparr>wire := wire s\<rparr>)"
              by (simp add: on_page_def)
            with Probe k Scanning Cons None True show ?thesis by (intro leaves) auto
          next
            case False
            with run Cons None have "race_step cl groups uid limit s ev =
                s\<lparr>probes := (probes s)[k := Scanning rest err],
                  wire := sent (MoreParticipants (gid (groups ! k))) (wire s)\<rparr>"
              by (auto simp: on_page_def)
            with Probe k Scanning Cons None False show ?thesis by (intro more) simp_all
          qed
        qed
      qed
    next
      case Finished
      with Probe k have "race_step cl groups uid limit s ev = s"
        by (simp add: race_step_def)
      then show ?thesis by (rule same)
    qed
  qed
qed

lemma holders_update:
  "k < length (probes s) \<Longrightarrow>
   length (filter holds_slot ((probes s)[k := p])) + (if holds_slot (probes s ! k) then 1 else 0)
     = holders s + (if holds_slot p then 1 else 0)"
  unfolding holders_def by (rule count_update)

lemma holders_probes_update [simp]:
  "holders (s\<lparr>probes := ps\<rparr>) = length (filter holds_slot ps)"
  "holders (s\<lparr>slots := n\<rparr>) = holders s"
  "holders (s\<lparr>wire := w\<rparr>) = holders s"
  "holders (s\<lparr>found_user := f\<rparr>) = holders s"
  "holders (s\<lparr>done_event := d\<rparr>) = holders s"
  "holders (s\<lparr>resolved := r\<rparr>) = holders s"
  "holders (s\<lparr>entities := e\<rparr>) = holders s"
  by (simp_all add: holders_def)

lemma holders_leave:
  assumes "k < length (probes s)" "holds_slot (probes s ! k)"
  shows "holders (leave k s) + 1 = holders s"
  using holders_update [OF assms(1), of Finished] assms(2) by (simp add: holders_def)

lemma holders_report:
  assumes "k < length (probes s)" "holds_slot (probes s ! k)"
  shows "holders (report k u s) + 1 = holders s"
  using holders_update [OF assms(1), of Finished] assms(2) by (simp add: holders_def)

lemma holders_none: "holders (s\<lparr>probes := map (\<lambda>p. Finished) ps\<rparr>) = 0"
  by (induction ps) simp_all

lemma all_finished_nth:
  "all_finished s \<Longrightarrow> k < length (probes s) \<Longrightarrow> probes s ! k = Finished"
  by (auto simp: all_finished_def list_ex_iff)

lemma all_finished_map [simp]: "all_finished (s\<lparr>probes := map (\<lambda>p. Finished) ps\<rparr>)"
  by (simp add: all_finished_def list_ex_iff)

text \<open>After the call has returned nothing moves.\<close>

lemma race_step_after_return:
  assumes "resolved s \<noteq> None" "all_finished s"
  shows "race_step cl groups uid limit s ev = s"
proof (cases ev)
  case Poll
  with assms(1) show ?thesis by (simp add: race_step_def poll_def)
next
  case (Probe k)
  with all_finished_nth [OF assms(2), of k] show ?thesis
    by (simp add: race_step_def)
qed

lemma race_invariant_step:
  assumes inv: "race_invariant cache0 uid groups s"
  shows "race_invariant cache0 uid groups (race_step cl groups uid limit s ev)"
proof (cases "resolved s")
  case (Some r)
  with inv have "all_finished s" by (simp add: race_invariant_def)
  with Some have "race_step cl groups uid limit s ev = s"
    by (intro race_step_after_return) simp_all
  with inv show ?thesis by simp
next
  case None
  from inv have len: "length (probes s) = length groups"
    and sl: "slots s + holders s = PARALLEL_LIMIT"
    and de: "done_event s = (found_user s \<noteq> None)"
    and en: "entities s = cache0"
    using None by (simp_all add: race_invariant_def slot_invariant_def)
  show ?thesis
  proof (cases rule: race_step_cases [of cl groups uid limit s ev])
    case same
    with inv show ?thesis by simp
  next
    case (waits k)
    from holders_update [OF waits(2), of AwaitSlot] waits(4)
    have "length (filter holds_slot ((probes s)[k := AwaitSlot])) = holders s" by simp
    with len sl de en None show ?thesis
      unfolding waits(6) by (simp add: race_invariant_def slot_invariant_def)
  next
    case (skips k)
    from holders_update [OF skips(2), of Finished] skips(4)
    have "length (filter holds_slot ((probes s)[k := Finished])) = holders s" by auto
    with len sl de en None show ?thesis
      unfolding skips(7) by (simp add: race_invariant_def slot_invariant_def)
  next
    case (asks k)
    from holders_update [OF asks(2),
        of "AwaitParticipant (get_participant cl (calls (wire s)) (gid (groups ! k)) uid)"] asks(4)
    have "length (filter holds_slot ((probes s)
        [k := AwaitParticipant (get_participant cl (calls (wire s)) (gid (groups ! k)) uid)]))
        = holders s + 1" by auto
    with len sl de en None asks(5) show ?thesis
      unfolding asks(7) by (simp add: race_invariant_def slot_invariant_def)
  next
    case (reports k v)
    from reports(4) have "holds_slot (probes s ! k)" by auto
    from holders_report [OF reports(2) this, of v] len sl en None show ?thesis
      unfolding reports(5) by (simp add: race_invariant_def slot_invariant_def)
  next
    case (leaves k w')
    let ?s = "s\<lparr>wire := w'\<rparr>"
    from leaves(5) have "holds_slot (probes ?s ! k)" by auto
    from holders_leave [OF _ this] leaves(2) len sl de en None show ?thesis
      unfolding leaves(6) by (simp add: race_invariant_def slot_invariant_def)
  next
    case (scans k a)
    let ?p = "Scanning (fst (iter_participants cl (calls (wire s)) (gid (groups ! k)) limit))
                       (snd (iter_participants cl (calls (wire s)) (gid (groups ! k)) limit))"
    from holders_update [OF scans(2), of ?p] scans(4)
    have "length (filter holds_slot ((probes s)[k := ?p])) = holders s" by simp
    then have "holders (start_scan cl groups limit k s) = holders s"
      by (simp add: holders_def)
    with len sl de en None show ?thesis
      unfolding scans(7) by (simp add: race_invariant_def slot_invariant_def)
  next
    case (more k page rest err)
    from holders_update [OF more(2), of "Scanning rest err"] more(4)
    have "length (filter holds_slot ((probes s)[k := Scanning rest err])) = holders s" by simp
    with len sl de en None show ?thesis
      unfolding more(7) by (simp add: race_invariant_def slot_invariant_def)
  next
    case returns
    note p = poll_returns [OF returns(2,3), of cl uid]
    have fin: "all_finished (poll cl uid s)"
      using returns(3) by (cases "done_event s") (simp_all add: all_finished_def p(1) list_ex_iff)
    have hol: "slots (poll cl uid s) + holders (poll cl uid s) = PARALLEL_LIMIT"
    proof (cases "done_event s")
      case True
      have "holders (poll cl uid s) = 0"
        using holders_none [where s = s and ps = "probes s"] by (simp add: holders_def p(1) True)
      with sl True show ?thesis by (simp add: p(2))
    next
      case False
      with sl show ?thesis by (simp add: holders_def p(1,2))
    qed
    have ent: "(case found_user s of
          None \<Rightarrow> entities (poll cl uid s) = cache0
        | Some u \<Rightarrow> (\<exists>t. entities (poll cl uid s)
                            = cache0(uid \<mapsto> \<lparr>cached_data = Some u, cached_at = t\<rparr>)))"
      using en by (auto simp: p(7) split: option.split)
    from len de fin hol ent show ?thesis
      unfolding returns(4)
      by (simp add: race_invariant_def slot_invariant_def p(1,3,4,5))
  qed
qed

lemma race_invariant_run:
  "race_invariant cache0 uid groups s \<Longrightarrow>
   race_invariant cache0 uid groups (race_run cl groups uid limit evs s)"
  by (induction evs arbitrary: s) (simp_all add: race_invariant_step)

lemma holders_replicate_Created: "length (filter holds_slot (replicate n Created)) = 0"
  by (induction n) simp_all

lemma race_invariant_start:
  assumes "ent_cache uid = None"
  shows "race_invariant ent_cache uid groups (resolve_start cl groups uid ent_cache w)"
  using assms holders_replicate_Created [of "length groups"]
  by (simp add: resolve_start_def race_invariant_def slot_invariant_def holders_def)

subsection \<open>The race finds the one identity\<close>

lemma find_user_append:
  "find_user uid (xs @ ys) =
     (case find_user uid xs of Some v \<Rightarrow> Some v | None \<Rightarrow> find_user uid ys)"
  by (induction xs) (simp_all add: find_user_def)

lemma find_user_Nil [simp]: "find_user uid [] = None"
  by (simp add: find_user_def)

lemma steady_participant:
  "steady cl \<Longrightarrow> get_participant cl sofar chat_id user_id = get_participant cl [] chat_id user_id"
  by (simp add: steady_def)

lemma steady_pages:
  "steady cl \<Longrightarrow> iter_participants cl sofar chat_id limit = iter_participants cl [] chat_id limit"
  by (simp add: steady_def)

lemma only_holder_unique:
  assumes "only_holder cl groups uid limit k u" "j < length groups"
    "probe_finds cl uid limit (groups ! j) = Some v"
  shows "j = k \<and> v = u"
  using assms by (auto simp: only_holder_def)

lemma lookup_probe_finds:
  "lookup_finds cl uid g = Some v \<Longrightarrow> probe_finds cl uid limit g = Some v"
  by (simp add: probe_finds_def)

lemma scan_probe_finds:
  "lookup_finds cl uid g = None \<Longrightarrow>
   probe_finds cl uid limit g = find_user uid (concat (fst (iter_participants cl [] (gid g) limit)))"
  by (simp add: probe_finds_def)

lemma tracking_probe_update:
  assumes tr: "tracking cl groups uid limit k u s" and j: "j < length (probes s)"
    and ans: "\<And>a. p = AwaitParticipant a \<Longrightarrow> a = get_participant cl [] (gid (groups ! j)) uid"
    and scn: "\<And>pages err. p = Scanning pages err \<Longrightarrow>
        lookup_finds cl uid (groups ! j) = None
        \<and> (\<exists>seen. fst (iter_participants cl [] (gid (groups ! j)) limit) = seen @ pages
              \<and> find_user uid (concat seen) = None)"
    and fnd: "found_user s' = None \<or> found_user s' = Some u"
    and fin: "p = Finished \<Longrightarrow> j = k \<Longrightarrow> done_event s'"
    and keep: "done_event s \<Longrightarrow> done_event s'"
    and ps: "probes s' = (probes s)[j := p]"
  shows "tracking cl groups uid limit k u s'"
proof -
  from tr have old:
    "\<And>i a. i < length groups \<Longrightarrow> probes s ! i = AwaitParticipant a \<Longrightarrow>
        a = get_participant cl [] (gid (groups ! i)) uid"
    "\<And>i pages err. i < length groups \<Longrightarrow> probes s ! i = Scanning pages err \<Longrightarrow>
        lookup_finds cl uid (groups ! i) = None
        \<and> (\<exists>seen. fst (iter_participants cl [] (gid (groups ! i)) limit) = seen @ pages
              \<and> find_user uid (concat seen) = None)"
    "probes s ! k = Finished \<Longrightarrow> done_event s"
    unfolding tracking_def by blast+
  have nth: "probes s' ! i = (if i = j then p else probes s ! i)" for i
    using j by (simp add: ps nth_list_update)
  have one: "a = get_participant cl [] (gid (groups ! i)) uid"
    if "i < length groups \<and> probes s' ! i = AwaitParticipant a" for i a
    using that ans old(1) [of i a] by (cases "i = j") (simp_all add: nth)
  have two: "lookup_finds cl uid (groups ! i) = None
      \<and> (\<exists>seen. fst (iter_participants cl [] (gid (groups ! i)) limit) = seen @ pages
            \<and> find_user uid (concat seen) = None)"
    if "i < length groups \<and> probes s' ! i = Scanning pages err" for i pages err
    using that scn old(2) [of i pages err] by (cases "i = j") (simp_all add: nth)
  have four: "done_event s'" if "probes s' ! k = Finished"
    using that fin keep old(3) by (cases "k = j") (simp_all add: nth)
  from one two fnd four show ?thesis
    unfolding tracking_def by blast
qed

lemma tracking_step:
  assumes st: "steady cl" and oh: "only_holder cl groups uid limit k u"
    and inv: "race_invariant cache0 uid groups s"
    and tr: "tracking cl groups uid limit k u s"
  shows "tracking cl groups uid limit k u (race_step cl groups uid limit s ev)"
proof (cases rule: race_step_cases [of cl groups uid limit s ev])
  case same
  with tr show ?thesis by simp
next
  case (waits j)
  show ?thesis
    by (rule tracking_probe_update [OF tr waits(2), where p = AwaitSlot])
       (use tr in \<open>simp_all add: waits(6) tracking_def\<close>)
next
  case (skips j)
  show ?thesis
    by (rule tracking_probe_update [OF tr skips(2), where p = Finished])
       (use tr skips(6) in \<open>simp_all add: skips(7) tracking_def\<close>)
next
  case (asks j)
  show ?thesis
    by (rule tracking_probe_update [OF tr asks(2),
          where p = "AwaitParticipant (get_participant cl (calls (wire s)) (gid (groups ! j)) uid)"])
       (use tr in \<open>simp_all add: asks(7) tracking_def
            steady_participant [OF st, of "calls (wire s)"]\<close>)
next
  case (reports j v)
  from reports(4) have "probe_finds cl uid limit (groups ! j) = Some v"
  proof (elim disjE exE conjE)
    fix a
    assume "probes s ! j = AwaitParticipant a" "answer_finds uid a = Some v"
    with tr reports(3) have "lookup_finds cl uid (groups ! j) = Some v"
      by (auto simp: tracking_def lookup_finds_def)
    then show ?thesis by (rule lookup_probe_finds)
  next
    fix page rest err
    assume sc: "probes s ! j = Scanning (page # rest) err" and hit: "find_user uid page = Some v"
    with tr reports(3) obtain seen where
      "lookup_finds cl uid (groups ! j) = None"
      "fst (iter_participants cl [] (gid (groups ! j)) limit) = seen @ page # rest"
      "find_user uid (concat seen) = None"
      unfolding tracking_def by blast
    with hit show ?thesis
      by (simp add: scan_probe_finds find_user_append)
  qed
  with only_holder_unique [OF oh reports(3)] have "j = k" "v = u" by simp_all
  show ?thesis
    by (rule tracking_probe_update [OF tr reports(2), where p = Finished])
       (simp_all add: reports(5) \<open>v = u\<close>)
next
  case (leaves j w')
  have "j = k \<Longrightarrow> done_event s"
  proof -
    assume jk: "j = k"
    from oh have target: "probe_finds cl uid limit (groups ! k) = Some u"
      by (simp add: only_holder_def)
    from leaves(5) show "done_event s"
    proof (elim disjE exE conjE)
      fix a
      assume "done_event s"
      then show ?thesis .
    next
      fix err
      assume "probes s ! j = Scanning [] err"
      with tr leaves(3) obtain seen where
        "lookup_finds cl uid (groups ! j) = None"
        "fst (iter_participants cl [] (gid (groups ! j)) limit) = seen @ []"
        "find_user uid (concat seen) = None"
        unfolding tracking_def by blast
      with target jk show ?thesis by (simp add: scan_probe_finds)
    next
      fix page
      assume "probes s ! j = Scanning [page] None" and miss: "find_user uid page = None"
      with tr leaves(3) obtain seen where
        "lookup_finds cl uid (groups ! j) = None"
        "fst (iter_participants cl [] (gid (groups ! j)) limit) = seen @ [page]"
        "find_user uid (concat seen) = None"
        unfolding tracking_def by blast
      with target jk miss show ?thesis by (simp add: scan_probe_finds find_user_append)
    qed
  qed
  then show ?thesis
    by (intro tracking_probe_update [OF tr leaves(2), where p = Finished])
       (use tr in \<open>simp_all add: leaves(6) tracking_def\<close>)
next
  case (scans j a)
  let ?pages = "fst (iter_participants cl (calls (wire s)) (gid (groups ! j)) limit)"
  let ?err = "snd (iter_participants cl (calls (wire s)) (gid (groups ! j)) limit)"
  from tr scans(3,4,5) have look: "lookup_finds cl uid (groups ! j) = None"
    by (auto simp: tracking_def lookup_finds_def)
  have "\<exists>seen. fst (iter_participants cl [] (gid (groups ! j)) limit) = seen @ ?pages
        \<and> find_user uid (concat seen) = None"
    by (intro exI [of _ "[]"]) (simp add: steady_pages [OF st, of "calls (wire s)"])
  with look show ?thesis
    by (intro tracking_probe_update [OF tr scans(2), where p = "Scanning ?pages ?err"])
       (use tr in \<open>simp_all add: scans(7) tracking_def\<close>)
next
  case (more j page rest err)
  from tr more(3,4) obtain seen where seen:
    "lookup_finds cl uid (groups ! j) = None"
    "fst (iter_participants cl [] (gid (groups ! j)) limit) = seen @ page # rest"
    "find_user uid (concat seen) = None"
    unfolding tracking_def by blast
  have "\<exists>seen'. fst (iter_participants cl [] (gid (groups ! j)) limit) = seen' @ rest
        \<and> find_user uid (concat seen') = None"
    using seen more(5) by (intro exI [of _ "seen @ [page]"]) (simp add: find_user_append)
  with seen(1) show ?thesis
    by (intro tracking_probe_update [OF tr more(2), where p = "Scanning rest err"])
       (use tr in \<open>simp_all add: more(7) tracking_def\<close>)
next
  case returns
  note p = poll_returns [OF returns(2,3), of cl uid]
  from tr have old: "\<And>j a. j < length groups \<and> probes s ! j = AwaitParticipant a \<longrightarrow>
          a = get_participant cl [] (gid (groups ! j)) uid"
    "\<And>j pages err. j < length groups \<and> probes s ! j = Scanning pages err \<longrightarrow>
          lookup_finds cl uid (groups ! j) = None
          \<and> (\<exists>seen. fst (iter_participants cl [] (gid (groups ! j)) limit) = seen @ pages
                \<and> find_user uid (concat seen) = None)"
    "found_user s = None \<or> found_user s = Some u"
    "probes s ! k = Finished \<longrightarrow> done_event s"
    by (simp_all add: tracking_def)
  from inv have len: "length (probes s) = length groups" by (simp add: race_invariant_def)
  show ?thesis
  proof (cases "done_event s")
    case True
    with len old(3) show ?thesis
      unfolding returns(4) tracking_def by (auto simp: p(1,3,4))
  next
    case False
    with old show ?thesis
      unfolding returns(4) tracking_def by (simp add: p(1,3,4))
  qed
qed

lemma tracking_run:
  assumes "steady cl" "only_holder cl groups uid limit k u"
  shows "race_invariant cache0 uid groups s \<Longrightarrow> tracking cl groups uid limit k u s \<Longrightarrow>
     tracking cl groups uid limit k u (race_run cl groups uid limit evs s)"
  by (induction evs arbitrary: s) (simp_all add: tracking_step [OF assms] race_invariant_step)

lemma tracking_start:
  assumes "ent_cache uid = None" "k < length groups"
  shows "tracking cl groups uid limit k u (resolve_start cl groups uid ent_cache w)"
  using assms by (auto simp: resolve_start_def tracking_def)

lemma race_finds_the_holder:
  assumes miss: "ent_cache uid = None" and st: "steady cl"
    and oh: "only_holder cl groups uid limit k u"
    and ret: "resolved (race_run cl groups uid limit evs (resolve_start cl groups uid ent_cache w)) = Some r"
  shows "r = Some u"
proof -
  let ?s = "race_run cl groups uid limit evs (resolve_start cl groups uid ent_cache w)"
  from oh have k: "k < length groups" by (simp add: only_holder_def)
  note start = race_invariant_start [where ent_cache = ent_cache and uid = uid, OF miss]
  have inv: "race_invariant ent_cache uid groups ?s"
    by (rule race_invariant_run [OF start])
  have tr: "tracking cl groups uid limit k u ?s"
    by (rule tracking_run [OF st oh start
          tracking_start [where ent_cache = ent_cache and uid = uid, OF miss k]])
  from inv ret have r: "r = found_user ?s" and fin: "all_finished ?s"
    and len: "length (probes ?s) = length groups"
    and de: "done_event ?s = (found_user ?s \<noteq> None)"
    by (simp_all add: race_invariant_def)
  from all_finished_nth [OF fin, of k] k len have "probes ?s ! k = Finished" by simp
  with tr have "done_event ?s" by (simp add: tracking_def)
  with de tr r show ?thesis by (auto simp: tracking_def)
qed

subsection \<open>The cache of entities\<close>

lemma race_run_after_return:
  "resolved s \<noteq> None \<Longrightarrow> all_finished s \<Longrightarrow> race_run cl groups uid limit evs s = s"
  by (induction evs) (simp_all add: race_step_after_return)

lemma resolve_start_hit:
  assumes "ent_cache uid = Some ent_item"
  shows "resolve_start cl groups uid ent_cache w =
     \<lparr>probes = [], slots = PARALLEL_LIMIT, found_user = None, done_event = False,
      resolved = Some (cached_data ent_item), entities = ent_cache, wire = w\<rparr>"
  using assms by (simp add: resolve_start_def CACHE_DURATION_def)

lemma resolve_hit:
  assumes "ent_cache uid = Some ent_item"
  shows "resolve cl groups uid per_group_limit ent_cache w evs =
     \<lparr>probes = [], slots = PARALLEL_LIMIT, found_user = None, done_event = False,
      resolved = Some (cached_data ent_item), entities = ent_cache, wire = w\<rparr>"
  unfolding resolve_def resolve_start_hit [where ent_cache = ent_cache and uid = uid, OF assms]
  by (rule race_run_after_return) (simp_all add: all_finished_def)

lemma resolve_miss_invariant:
  assumes "ent_cache uid = None"
  shows "race_invariant ent_cache uid groups (resolve cl groups uid per_group_limit ent_cache w evs)"
  unfolding resolve_def
  by (rule race_invariant_run
        [OF race_invariant_start [where ent_cache = ent_cache and uid = uid, OF assms]])

text \<open>
  Claim C10.  Whatever the client answers and however the tasks are scheduled: when the
  call has returned \<^verbatim>\<open>None\<close>, the cache of entities is the cache the call started with;
  and at every moment the cache is that cache, or a user was found and the cache is that
  cache with the one item for the target id added.
\<close>

theorem cache_written_only_when_found:
  "(resolved (resolve cl groups uid per_group_limit ent_cache w evs) = Some None
      \<longrightarrow> entities (resolve cl groups uid per_group_limit ent_cache w evs) = ent_cache)
   \<and> (entities (resolve cl groups uid per_group_limit ent_cache w evs) = ent_cache
       \<or> (\<exists>u t. found_user (resolve cl groups uid per_group_limit ent_cache w evs) = Some u
             \<and> entities (resolve cl groups uid per_group_limit ent_cache w evs)
                 = ent_cache(uid \<mapsto> \<lparr>cached_data = Some u, cached_at = t\<rparr>)))"
proof (cases "ent_cache uid")
  case (Some ent_item)
  show ?thesis by (simp add: resolve_hit [where ent_cache = ent_cache and uid = uid, OF Some])
next
  case None
  let ?s = "resolve cl groups uid per_group_limit ent_cache w evs"
  from resolve_miss_invariant [where ent_cache = ent_cache and uid = uid, OF None,
      of groups cl per_group_limit w evs]
  have "case resolved ?s of
          None \<Rightarrow> entities ?s = ent_cache
        | Some r \<Rightarrow>
            r = found_user ?s \<and> all_finished ?s
            \<and> (case r of
                  None \<Rightarrow> entities ?s = ent_cache
                | Some u \<Rightarrow>
                    (\<exists>t. entities ?s = ent_cache(uid \<mapsto> \<lparr>cached_data = Some u, cached_at = t\<rparr>)))"
    by (simp add: race_invariant_def)
  then show ?thesis
    by (cases "resolved ?s"; cases "found_user ?s") auto
qed

lemma in_vain_returns_None:
  "resolved (resolve roster lonely_group 555 None old_cache world0 in_vain) = Some None"
  by code_simp

theorem cache_written_only_when_found_witness:
  "resolved (resolve roster lonely_group 555 None old_cache world0 in_vain) = Some None
   \<and> entities (resolve roster lonely_group 555 None old_cache world0 in_vain) = old_cache"
  using cache_written_only_when_found [of roster lonely_group 555 None old_cache world0 in_vain]
    in_vain_returns_None
  by blast

subsection \<open>The race can always be run to its end\<close>

lemma race_run_append:
  "race_run cl groups uid limit (a @ b) s
     = race_run cl groups uid limit b (race_run cl groups uid limit a s)"
  by (induction a arbitrary: s) simp_all

lemma unfinished_update:
  assumes "k < length (probes s)" "probes s ! k \<noteq> Finished"
  shows "unfinished (s'\<lparr>probes := (probes s)[k := Finished]\<rparr>) < unfinished s"
  using count_update [OF assms(1), of "\<lambda>p. p \<noteq> Finished" Finished] assms(2)
  by (simp add: unfinished_def)

lemma unfinished_probes:
  "probes s' = (probes s)[k := Finished] \<Longrightarrow> k < length (probes s) \<Longrightarrow>
   probes s ! k \<noteq> Finished \<Longrightarrow> unfinished s' < unfinished s"
  using unfinished_update [of k s s'] by (simp add: unfinished_def)

text \<open>A task that scans comes to its end when it is run often enough.\<close>

lemma scan_ends:
  assumes "length (probes s) = length groups" "k < length groups"
    "probes s ! k = Scanning pages err"
  shows "\<exists>n. probes (race_run cl groups uid limit (replicate n (Probe k)) s) = (probes s)[k := Finished]
           \<and> resolved (race_run cl groups uid limit (replicate n (Probe k)) s) = resolved s"
  using assms
proof (induction pages arbitrary: s)
  case Nil
  then have "race_step cl groups uid limit s (Probe k) = on_page groups uid k [] err s"
    by (simp add: race_step_def)
  then have "probes (race_run cl groups uid limit (replicate 1 (Probe k)) s) = (probes s)[k := Finished]
      \<and> resolved (race_run cl groups uid limit (replicate 1 (Probe k)) s) = resolved s"
    by (simp add: on_page_def split: option.split)
  then show ?case by blast
next
  case (Cons page rest)
  then have run: "race_step cl groups uid limit s (Probe k) = on_page groups uid k (page # rest) err s"
    by (simp add: race_step_def)
  show ?case
  proof (cases "find_user uid page = None \<and> \<not> (rest = [] \<and> err = None)")
    case False
    with run have "probes (race_run cl groups uid limit (replicate 1 (Probe k)) s) = (probes s)[k := Finished]
      \<and> resolved (race_run cl groups uid limit (replicate 1 (Probe k)) s) = resolved s"
      by (auto simp: on_page_def split: option.split)
    then show ?thesis by blast
  next
    case True
    let ?s' = "s\<lparr>probes := (probes s)[k := Scanning rest err],
                  wire := sent (MoreParticipants (gid (groups ! k))) (wire s)\<rparr>"
    from run True have step: "race_step cl groups uid limit s (Probe k) = ?s'"
      by (auto simp: on_page_def)
    from Cons.prems have "length (probes ?s') = length groups" "probes ?s' ! k = Scanning rest err"
      by simp_all
    from Cons.IH [OF this(1) Cons.prems(2) this(2)] obtain n where
      "probes (race_run cl groups uid limit (replicate n (Probe k)) ?s') = (probes ?s')[k := Finished]"
      "resolved (race_run cl groups uid limit (replicate n (Probe k)) ?s') = resolved ?s'"
      by blast
    with step have "probes (race_run cl groups uid limit (replicate (Suc n) (Probe k)) s)
          = (probes s)[k := Finished]
      \<and> resolved (race_run cl groups uid limit (replicate (Suc n) (Probe k)) s) = resolved s"
      by simp
    then show ?thesis by blast
  qed
qed

text \<open>So does a task that waits for the answer to its lookup.\<close>

lemma lookup_ends:
  assumes "length (probes s) = length groups" "k < length groups"
    "probes s ! k = AwaitParticipant a"
  shows "\<exists>n. probes (race_run cl groups uid limit (replicate n (Probe k)) s) = (probes s)[k := Finished]
           \<and> resolved (race_run cl groups uid limit (replicate n (Probe k)) s) = resolved s"
proof -
  from assms have run: "race_step cl groups uid limit s (Probe k) = on_answer cl groups uid limit k a s"
    by (simp add: race_step_def)
  show ?thesis
  proof (cases "answer_finds uid a = None \<and> \<not> done_event s")
    case False
    with run have "probes (race_run cl groups uid limit (replicate 1 (Probe k)) s) = (probes s)[k := Finished]
      \<and> resolved (race_run cl groups uid limit (replicate 1 (Probe k)) s) = resolved s"
      by (auto simp: on_answer_def split: option.split)
    then show ?thesis by blast
  next
    case True
    let ?s' = "start_scan cl groups limit k s"
    from run True have step: "race_step cl groups uid limit s (Probe k) = ?s'"
      by (simp add: on_answer_def)
    from assms have "length (probes ?s') = length groups"
      "probes ?s' ! k = Scanning (fst (iter_participants cl (calls (wire s)) (gid (groups ! k)) limit))
                               (snd (iter_participants cl (calls (wire s)) (gid (groups ! k)) limit))"
      by simp_all
    from scan_ends [OF this(1) assms(2) this(2), of cl uid limit] obtain n where
      "probes (race_run cl groups uid limit (replicate n (Probe k)) ?s') = (probes ?s')[k := Finished]"
      "resolved (race_run cl groups uid limit (replicate n (Probe k)) ?s') = resolved ?s'"
      by blast
    with step have "probes (race_run cl groups uid limit (replicate (Suc n) (Probe k)) s)
          = (probes s)[k := Finished]
      \<and> resolved (race_run cl groups uid limit (replicate (Suc n) (Probe k)) s) = resolved s"
      by simp
    then show ?thesis by blast
  qed
qed

text \<open>And so does a task that has not got its slot yet, when the semaphore has one.\<close>

lemma waiter_ends:
  assumes "length (probes s) = length groups" "k < length groups"
    "probes s ! k = Created \<or> probes s ! k = AwaitSlot" "0 < slots s"
  shows "\<exists>n. probes (race_run cl groups uid limit (replicate n (Probe k)) s) = (probes s)[k := Finished]
           \<and> resolved (race_run cl groups uid limit (replicate n (Probe k)) s) = resolved s"
proof -
  from assms have run: "race_step cl groups uid limit s (Probe k) = enter_slot cl groups uid limit k s"
    by (auto simp: race_step_def)
  show ?thesis
  proof (cases "done_event s")
    case True
    with run have "probes (race_run cl groups uid limit (replicate 1 (Probe k)) s) = (probes s)[k := Finished]
      \<and> resolved (race_run cl groups uid limit (replicate 1 (Probe k)) s) = resolved s"
      by (simp add: enter_slot_def)
    then show ?thesis by blast
  next
    case False
    let ?a = "get_participant cl (calls (wire s)) (gid (groups ! k)) uid"
    let ?s' = "s\<lparr>slots := slots s - 1, probes := (probes s)[k := AwaitParticipant ?a],
                 wire := sent (GetParticipantRequest (gid (groups ! k)) uid) (wire s)\<rparr>"
    from run False have step: "race_step cl groups uid limit s (Probe k) = ?s'"
      by (simp add: enter_slot_def USE_GET_PARTICIPANT_FIRST_def)
    from assms have "length (probes ?s') = length groups" "probes ?s' ! k = AwaitParticipant ?a"
      by simp_all
    from lookup_ends [OF this(1) assms(2) this(2), of cl uid limit] obtain n where
      "probes (race_run cl groups uid limit (replicate n (Probe k)) ?s') = (probes ?s')[k := Finished]"
      "resolved (race_run cl groups uid limit (replicate n (Probe k)) ?s') = resolved ?s'"
      by blast
    with step have "probes (race_run cl groups uid limit (replicate (Suc n) (Probe k)) s)
          = (probes s)[k := Finished]
      \<and> resolved (race_run cl groups uid limit (replicate (Suc n) (Probe k)) s) = resolved s"
      by simp
    then show ?thesis by blast
  qed
qed

lemma some_task_can_end:
  assumes inv: "race_invariant cache0 uid groups s" and left: "0 < unfinished s"
  shows "\<exists>k n. k < length (probes s) \<and> probes s ! k \<noteq> Finished
     \<and> probes (race_run cl groups uid limit (replicate n (Probe k)) s) = (probes s)[k := Finished]
     \<and> resolved (race_run cl groups uid limit (replicate n (Probe k)) s) = resolved s"
proof -
  from inv have len: "length (probes s) = length groups"
    and sl: "slots s + holders s = PARALLEL_LIMIT"
    by (simp_all add: race_invariant_def slot_invariant_def)
  show ?thesis
  proof (cases "\<exists>k < length (probes s). holds_slot (probes s ! k)")
    case True
    then obtain k where k: "k < length (probes s)" "holds_slot (probes s ! k)" by blast
    then have nf: "probes s ! k \<noteq> Finished" by auto
    from k(2) have "(\<exists>a. probes s ! k = AwaitParticipant a) \<or> (\<exists>pages err. probes s ! k = Scanning pages err)"
      by (cases "probes s ! k") simp_all
    then have "\<exists>n. probes (race_run cl groups uid limit (replicate n (Probe k)) s) = (probes s)[k := Finished]
           \<and> resolved (race_run cl groups uid limit (replicate n (Probe k)) s) = resolved s"
      using lookup_ends [OF len, of k _ cl uid limit] scan_ends [OF len, of k _ _ cl uid limit] k(1) len
      by auto
    with k(1) nf show ?thesis by blast
  next
    case False
    then have "\<forall>p \<in> set (probes s). \<not> holds_slot p"
      by (auto simp: in_set_conv_nth)
    then have "holders s = 0"
      by (simp add: holders_def filter_empty_conv)
    with sl have free: "0 < slots s" by (simp add: PARALLEL_LIMIT_def)
    from left obtain p where "p \<in> set (probes s)" "p \<noteq> Finished"
      unfolding unfinished_def by (auto simp: filter_empty_conv)
    then obtain k where k: "k < length (probes s)" "probes s ! k \<noteq> Finished"
      by (auto simp: in_set_conv_nth)
    with False have "probes s ! k = Created \<or> probes s ! k = AwaitSlot"
      by (cases "probes s ! k") auto
    from waiter_ends [OF len _ this free, of cl uid limit] k(1) len
    have "\<exists>n. probes (race_run cl groups uid limit (replicate n (Probe k)) s) = (probes s)[k := Finished]
           \<and> resolved (race_run cl groups uid limit (replicate n (Probe k)) s) = resolved s"
      by simp
    with k show ?thesis by blast
  qed
qed

lemma race_can_return:
  assumes "race_invariant cache0 uid groups s"
  shows "\<exists>evs. resolved (race_run cl groups uid limit evs s) \<noteq> None"
  using assms
proof (induction "unfinished s" arbitrary: s rule: less_induct)
  case less
  show ?case
  proof (cases "resolved s")
    case (Some r)
    then have "resolved (race_run cl groups uid limit [] s) \<noteq> None" by simp
    then show ?thesis by blast
  next
    case None
    show ?thesis
    proof (cases "unfinished s = 0")
      case True
      then have "\<not> list_ex (\<lambda>p. p \<noteq> Finished) (probes s)"
        by (simp add: unfinished_def list_ex_iff filter_empty_conv)
      with None have "resolved (poll cl uid s) = Some (found_user s)"
        by (intro poll_returns) simp_all
      then have "resolved (race_run cl groups uid limit [Poll] s) \<noteq> None"
        by (simp add: race_step_def)
      then show ?thesis by blast
    next
      case False
      then have "0 < unfinished s" by simp
      from some_task_can_end [OF less.prems this, of cl limit] obtain k n where
        k: "k < length (probes s)" "probes s ! k \<noteq> Finished"
        and ends: "probes (race_run cl groups uid limit (replicate n (Probe k)) s) = (probes s)[k := Finished]"
        by blast
      let ?s' = "race_run cl groups uid limit (replicate n (Probe k)) s"
      have smaller: "unfinished ?s' < unfinished s"
        using ends k by (rule unfinished_probes)
      have "race_invariant cache0 uid groups ?s'"
        using less.prems by (rule race_invariant_run)
      from less.hyps [OF smaller this] obtain evs where
        "resolved (race_run cl groups uid limit evs ?s') \<noteq> None" by blast
      then have "resolved (race_run cl groups uid limit (replicate n (Probe k) @ evs) s) \<noteq> None"
        by (simp add: race_run_append)
      then show ?thesis by blast
    qed
  qed
qed

lemma after_the_match:
  assumes "done_event s" "\<not> is_scanning (probes s ! j)"
  shows "calls (wire (race_step cl groups uid limit s (Probe j))) = calls (wire s)"
proof (cases rule: race_step_cases [of cl groups uid limit s "Probe j"])
  case same
  then show ?thesis by simp
next
  case (waits k)
  then show ?thesis by simp
next
  case (skips k)
  then show ?thesis by simp
next
  case (asks k)
  with assms(1) show ?thesis by simp
next
  case (reports k v)
  then show ?thesis by simp
next
  case (leaves k w')
  then show ?thesis by simp
next
  case (scans k a)
  with assms(1) show ?thesis by simp
next
  case (more k page rest err)
  with assms(2) show ?thesis by simp
next
  case returns
  then show ?thesis by simp
qed

lemma resolve_append:
  "resolve cl groups uid per_group_limit ent_cache w (evs @ later)
     = race_run cl groups uid (per_limit per_group_limit) later
         (resolve cl groups uid per_group_limit ent_cache w evs)"
  by (simp add: resolve_def race_run_append)

text \<open>
  Claim C1, as the code has it.  A call that finds the target id in the cache returns the
  cached identity, creates no task and sends nothing.  A call that does not creates one
  task for each group, and however the tasks are scheduled and whatever the client
  answers:

  \<^item> at most \<open>PARALLEL_LIMIT = 8\<close> tasks hold a slot of the semaphore;
  \<^item> when the call has returned \<^verbatim>\<open>None\<close>, every task has ended and none has found the
    target;
  \<^item> when it has returned an identity, that identity is in the cache under the target id;
  \<^item> when it has returned, every task has ended and no step changes anything any more,
    so that nothing is sent after the return;
  \<^item> when the resolver wakes after a match it cancels every task that still runs and
    returns the identity found, sending nothing; when it wakes with every task ended and
    no match it returns \<^verbatim>\<open>None\<close>; when it wakes with no match and a task still running
    it sleeps again and nothing changes;
  \<^item> once a match is recorded, a task that is not inside its scan sends nothing when it
    runs; a task inside its scan may still ask for its next page until the resolver
    wakes;
  \<^item> the call can always be run on to its return;
  \<^item> with a client that answers each request always the same way and a target that
    exactly one group holds, the value returned is the identity found in that group,
    whichever task ends first.
\<close>

theorem resolver_race:
  "(\<forall>ent_item. ent_cache uid = Some ent_item \<longrightarrow>
       resolved (resolve cl groups uid per_group_limit ent_cache w evs) = Some (cached_data ent_item)
       \<and> probes (resolve cl groups uid per_group_limit ent_cache w evs) = []
       \<and> wire (resolve cl groups uid per_group_limit ent_cache w evs) = w
       \<and> entities (resolve cl groups uid per_group_limit ent_cache w evs) = ent_cache)
   \<and> (ent_cache uid = None \<longrightarrow>
       length (probes (resolve cl groups uid per_group_limit ent_cache w evs)) = length groups
       \<and> holders (resolve cl groups uid per_group_limit ent_cache w evs) \<le> PARALLEL_LIMIT
       \<and> PARALLEL_LIMIT = 8
       \<and> (resolved (resolve cl groups uid per_group_limit ent_cache w evs) = Some None \<longrightarrow>
            all_finished (resolve cl groups uid per_group_limit ent_cache w evs)
            \<and> found_user (resolve cl groups uid per_group_limit ent_cache w evs) = None)
       \<and> (\<forall>v. resolved (resolve cl groups uid per_group_limit ent_cache w evs) = Some (Some v) \<longrightarrow>
            found_user (resolve cl groups uid per_group_limit ent_cache w evs) = Some v
            \<and> (\<exists>t. entities (resolve cl groups uid per_group_limit ent_cache w evs) uid
                     = Some \<lparr>cached_data = Some v, cached_at = t\<rparr>))
       \<and> (resolved (resolve cl groups uid per_group_limit ent_cache w evs) \<noteq> None \<longrightarrow>
            all_finished (resolve cl groups uid per_group_limit ent_cache w evs)
            \<and> (\<forall>later. resolve cl groups uid per_group_limit ent_cache w (evs @ later)
                        = resolve cl groups uid per_group_limit ent_cache w evs))
       \<and> (resolved (resolve cl groups uid per_group_limit ent_cache w evs) = None \<and> done_event (resolve cl groups uid per_group_limit ent_cache w evs) \<longrightarrow>
            resolved (resolve cl groups uid per_group_limit ent_cache w (evs @ [Poll])) = Some (found_user (resolve cl groups uid per_group_limit ent_cache w evs))
            \<and> found_user (resolve cl groups uid per_group_limit ent_cache w evs) \<noteq> None
            \<and> probes (resolve cl groups uid per_group_limit ent_cache w (evs @ [Poll])) = map (\<lambda>p. Finished) (probes (resolve cl groups uid per_group_limit ent_cache w evs))
            \<and> all_finished (resolve cl groups uid per_group_limit ent_cache w (evs @ [Poll]))
            \<and> wire (resolve cl groups uid per_group_limit ent_cache w (evs @ [Poll])) = wire (resolve cl groups uid per_group_limit ent_cache w evs))
       \<and> (resolved (resolve cl groups uid per_group_limit ent_cache w evs) = None \<and> \<not> done_event (resolve cl groups uid per_group_limit ent_cache w evs) \<and> all_finished (resolve cl groups uid per_group_limit ent_cache w evs) \<longrightarrow>
            resolved (resolve cl groups uid per_group_limit ent_cache w (evs @ [Poll])) = Some None
            \<and> wire (resolve cl groups uid per_group_limit ent_cache w (evs @ [Poll])) = wire (resolve cl groups uid per_group_limit ent_cache w evs)
            \<and> entities (resolve cl groups uid per_group_limit ent_cache w (evs @ [Poll])) = entities (resolve cl groups uid per_group_limit ent_cache w evs))
       \<and> (\<not> done_event (resolve cl groups uid per_group_limit ent_cache w evs) \<and> \<not> all_finished (resolve cl groups uid per_group_limit ent_cache w evs) \<longrightarrow>
            resolve cl groups uid per_group_limit ent_cache w (evs @ [Poll])
              = resolve cl groups uid per_group_limit ent_cache w evs)
       \<and> (done_event (resolve cl groups uid per_group_limit ent_cache w evs) \<longrightarrow>
            (\<forall>j. \<not> is_scanning (probes (resolve cl groups uid per_group_limit ent_cache w evs) ! j) \<longrightarrow>
                 calls (wire (resolve cl groups uid per_group_limit ent_cache w (evs @ [Probe j])))
                   = calls (wire (resolve cl groups uid per_group_limit ent_cache w evs))))
       \<and> (\<exists>later. resolved (resolve cl groups uid per_group_limit ent_cache w (evs @ later)) \<noteq> None)
       \<and> (steady cl \<and> only_holder cl groups uid (per_limit per_group_limit) k u \<longrightarrow>
            (\<forall>r. resolved (resolve cl groups uid per_group_limit ent_cache w evs) = Some r \<longrightarrow>
                 r = Some u)))"
proof (intro conjI)
  show "\<forall>ent_item. ent_cache uid = Some ent_item \<longrightarrow>
       resolved (resolve cl groups uid per_group_limit ent_cache w evs) = Some (cached_data ent_item)
       \<and> probes (resolve cl groups uid per_group_limit ent_cache w evs) = []
       \<and> wire (resolve cl groups uid per_group_limit ent_cache w evs) = w
       \<and> entities (resolve cl groups uid per_group_limit ent_cache w evs) = ent_cache"
  proof (intro allI impI)
    fix ent_item
    assume hit: "ent_cache uid = Some ent_item"
    show "resolved (resolve cl groups uid per_group_limit ent_cache w evs) = Some (cached_data ent_item)
       \<and> probes (resolve cl groups uid per_group_limit ent_cache w evs) = []
       \<and> wire (resolve cl groups uid per_group_limit ent_cache w evs) = w
       \<and> entities (resolve cl groups uid per_group_limit ent_cache w evs) = ent_cache"
      by (simp add: resolve_hit [where ent_cache = ent_cache and uid = uid, OF hit])
  qed
next
  let ?s = "resolve cl groups uid per_group_limit ent_cache w evs"
  let ?sp = "resolve cl groups uid per_group_limit ent_cache w (evs @ [Poll])"
  let ?limit = "per_limit per_group_limit"
  show "ent_cache uid = None \<longrightarrow>
       length (probes ?s) = length groups
       \<and> holders ?s \<le> PARALLEL_LIMIT
       \<and> PARALLEL_LIMIT = 8
       \<and> (resolved ?s = Some None \<longrightarrow> all_finished ?s \<and> found_user ?s = None)
       \<and> (\<forall>v. resolved ?s = Some (Some v) \<longrightarrow>
            found_user ?s = Some v
            \<and> (\<exists>t. entities ?s uid = Some \<lparr>cached_data = Some v, cached_at = t\<rparr>))
       \<and> (resolved ?s \<noteq> None \<longrightarrow>
            all_finished ?s
            \<and> (\<forall>later. resolve cl groups uid per_group_limit ent_cache w (evs @ later) = ?s))
       \<and> (resolved ?s = None \<and> done_event ?s \<longrightarrow>
            resolved ?sp = Some (found_user ?s)
            \<and> found_user ?s \<noteq> None
            \<and> probes ?sp = map (\<lambda>p. Finished) (probes ?s)
            \<and> all_finished ?sp
            \<and> wire ?sp = wire ?s)
       \<and> (resolved ?s = None \<and> \<not> done_event ?s \<and> all_finished ?s \<longrightarrow>
            resolved ?sp = Some None
            \<and> wire ?sp = wire ?s
            \<and> entities ?sp = entities ?s)
       \<and> (\<not> done_event ?s \<and> \<not> all_finished ?s \<longrightarrow> ?sp = ?s)
       \<and> (done_event ?s \<longrightarrow>
            (\<forall>j. \<not> is_scanning (probes ?s ! j) \<longrightarrow>
                 calls (wire (resolve cl groups uid per_group_limit ent_cache w (evs @ [Probe j])))
                   = calls (wire ?s)))
       \<and> (\<exists>later. resolved (resolve cl groups uid per_group_limit ent_cache w (evs @ later)) \<noteq> None)
       \<and> (steady cl \<and> only_holder cl groups uid ?limit k u \<longrightarrow>
            (\<forall>r. resolved ?s = Some r \<longrightarrow> r = Some u))"
  proof
    assume miss: "ent_cache uid = None"
    have inv: "race_invariant ent_cache uid groups ?s"
      by (rule resolve_miss_invariant [where ent_cache = ent_cache and uid = uid, OF miss])
    then have len: "length (probes ?s) = length groups"
      and sl: "slots ?s + holders ?s = PARALLEL_LIMIT"
      by (simp_all add: race_invariant_def slot_invariant_def)
    from sl have hol: "holders ?s \<le> PARALLEL_LIMIT" by simp
    have none: "resolved ?s = Some None \<longrightarrow> all_finished ?s \<and> found_user ?s = None"
      using inv by (auto simp: race_invariant_def)
    have some: "\<forall>v. resolved ?s = Some (Some v) \<longrightarrow>
            found_user ?s = Some v
            \<and> (\<exists>t. entities ?s uid = Some \<lparr>cached_data = Some v, cached_at = t\<rparr>)"
      using inv by (auto simp: race_invariant_def)
    have fin: "resolved ?s \<noteq> None \<longrightarrow>
            all_finished ?s
            \<and> (\<forall>later. resolve cl groups uid per_group_limit ent_cache w (evs @ later) = ?s)"
    proof
      assume ret: "resolved ?s \<noteq> None"
      with inv have af: "all_finished ?s" by (auto simp: race_invariant_def)
      with ret show "all_finished ?s
            \<and> (\<forall>later. resolve cl groups uid per_group_limit ent_cache w (evs @ later) = ?s)"
        by (simp add: resolve_append race_run_after_return)
    qed
    have woken: "?sp = poll cl uid ?s"
      by (simp add: resolve_append race_step_def)
    have wakes: "resolved ?s = None \<and> done_event ?s \<longrightarrow>
            resolved ?sp = Some (found_user ?s)
            \<and> found_user ?s \<noteq> None
            \<and> probes ?sp = map (\<lambda>p. Finished) (probes ?s)
            \<and> all_finished ?sp
            \<and> wire ?sp = wire ?s"
    proof
      assume a: "resolved ?s = None \<and> done_event ?s"
      then have r: "resolved ?s = None"
        and d: "done_event ?s \<or> \<not> list_ex (\<lambda>p. p \<noteq> Finished) (probes ?s)"
        by simp_all
      from a inv have f: "found_user ?s \<noteq> None" by (simp add: race_invariant_def)
      from poll_returns(1) [OF r d, of cl uid] a
      have p: "probes (poll cl uid ?s) = map (\<lambda>p. Finished) (probes ?s)" by simp
      then have af: "all_finished (poll cl uid ?s)"
        by (simp add: all_finished_def list_ex_iff)
      from poll_returns(5) [OF r d, of cl uid] poll_returns(6) [OF r d, of cl uid] f p af
      show "resolved ?sp = Some (found_user ?s)
            \<and> found_user ?s \<noteq> None
            \<and> probes ?sp = map (\<lambda>p. Finished) (probes ?s)
            \<and> all_finished ?sp
            \<and> wire ?sp = wire ?s"
        unfolding woken by simp
    qed
    have vain: "resolved ?s = None \<and> \<not> done_event ?s \<and> all_finished ?s \<longrightarrow>
            resolved ?sp = Some None
            \<and> wire ?sp = wire ?s
            \<and> entities ?sp = entities ?s"
    proof
      assume a: "resolved ?s = None \<and> \<not> done_event ?s \<and> all_finished ?s"
      then have r: "resolved ?s = None"
        and d: "done_event ?s \<or> \<not> list_ex (\<lambda>p. p \<noteq> Finished) (probes ?s)"
        by (simp_all add: all_finished_def)
      from a inv have f: "found_user ?s = None" by (simp add: race_invariant_def)
      from poll_returns(5) [OF r d, of cl uid] poll_returns(6) [OF r d, of cl uid]
        poll_returns(7) [OF r d, of cl uid] f
      show "resolved ?sp = Some None
            \<and> wire ?sp = wire ?s
            \<and> entities ?sp = entities ?s"
        unfolding woken by simp
    qed
    have sleeps: "\<not> done_event ?s \<and> \<not> all_finished ?s \<longrightarrow> ?sp = ?s"
      unfolding woken by (simp add: poll_sleeps all_finished_def)
    have quiet: "done_event ?s \<longrightarrow>
            (\<forall>j. \<not> is_scanning (probes ?s ! j) \<longrightarrow>
                 calls (wire (resolve cl groups uid per_group_limit ent_cache w (evs @ [Probe j])))
                   = calls (wire ?s))"
      by (simp add: resolve_append after_the_match)
    from race_can_return [OF inv, of cl ?limit]
    have live: "\<exists>later. resolved (resolve cl groups uid per_group_limit ent_cache w (evs @ later)) \<noteq> None"
      by (simp add: resolve_append)
    have race: "steady cl \<and> only_holder cl groups uid ?limit k u \<longrightarrow>
            (\<forall>r. resolved ?s = Some r \<longrightarrow> r = Some u)"
      using race_finds_the_holder [where ent_cache = ent_cache and uid = uid, OF miss,
          of cl groups ?limit k u evs w]
      by (auto simp: resolve_def)
    from len hol none some fin wakes vain sleeps quiet live race
    show "length (probes ?s) = length groups
       \<and> holders ?s \<le> PARALLEL_LIMIT
       \<and> PARALLEL_LIMIT = 8
       \<and> (resolved ?s = Some None \<longrightarrow> all_finished ?s \<and> found_user ?s = None)
       \<and> (\<forall>v. resolved ?s = Some (Some v) \<longrightarrow>
            found_user ?s = Some v
            \<and> (\<exists>t. entities ?s uid = Some \<lparr>cached_data = Some v, cached_at = t\<rparr>))
       \<and> (resolved ?s \<noteq> None \<longrightarrow>
            all_finished ?s
            \<and> (\<forall>later. resolve cl groups uid per_group_limit ent_cache w (evs @ later) = ?s))
       \<and> (resolved ?s = None \<and> done_event ?s \<longrightarrow>
            resolved ?sp = Some (found_user ?s)
            \<and> found_user ?s \<noteq> None
            \<and> probes ?sp = map (\<lambda>p. Finished) (probes ?s)
            \<and> all_finished ?sp
            \<and> wire ?sp = wire ?s)
       \<and> (resolved ?s = None \<and> \<not> done_event ?s \<and> all_finished ?s \<longrightarrow>
            resolved ?sp = Some None
            \<and> wire ?sp = wire ?s
            \<and> entities ?sp = entities ?s)
       \<and> (\<not> done_event ?s \<and> \<not> all_finished ?s \<longrightarrow> ?sp = ?s)
       \<and> (done_event ?s \<longrightarrow>
            (\<forall>j. \<not> is_scanning (probes ?s ! j) \<longrightarrow>
                 calls (wire (resolve cl groups uid per_group_limit ent_cache w (evs @ [Probe j])))
                   = calls (wire ?s)))
       \<and> (\<exists>later. resolved (resolve cl groups uid per_group_limit ent_cache w (evs @ later)) \<noteq> None)
       \<and> (steady cl \<and> only_holder cl groups uid ?limit k u \<longrightarrow>
            (\<forall>r. resolved ?s = Some r \<longrightarrow> r = Some u))"
      by (simp only: PARALLEL_LIMIT_def simp_thms)
  qed
qed

lemma roster_steady: "steady roster"
  by (simp add: steady_def roster_def)

lemma roster_only_holder:
  "only_holder roster three_groups 555 (per_limit None) 1 (member 555)"
proof -
  have g0: "probe_finds roster 555 (per_limit None) (three_groups ! 0) = None"
    and g1: "probe_finds roster 555 (per_limit None) (three_groups ! 1) = Some (member 555)"
    and g2: "probe_finds roster 555 (per_limit None) (three_groups ! 2) = None"
    by (simp_all add: three_groups_def probe_finds_def lookup_finds_def answer_finds_def
          find_user_def roster_def member_def)
  have others: "probe_finds roster 555 (per_limit None) (three_groups ! j) = None"
    if "j < length three_groups \<and> j \<noteq> 1" for j
  proof -
    from that have "j = 0 \<or> j = 2" by (auto simp: three_groups_def)
    with g0 g2 show ?thesis by auto
  qed
  have "1 < length three_groups" by (simp add: three_groups_def)
  with g1 others show ?thesis
    unfolding only_holder_def by blast
qed

lemma after_match_returns:
  "resolved (resolve roster three_groups 555 None old_cache world0 after_match)
     = Some (Some (member 555))"
  by code_simp

lemma warm_cache_hit:
  "warm_cache 555 = Some \<lparr>cached_data = Some (member 555), cached_at = 2\<rparr>"
  by (simp add: warm_cache_def)

theorem resolver_race_witness:
  "old_cache 555 = None \<and> steady roster
   \<and> only_holder roster three_groups 555 (per_limit None) 1 (member 555)
   \<and> resolved (resolve roster three_groups 555 None old_cache world0 after_match)
       = Some (Some (member 555))
   \<and> all_finished (resolve roster three_groups 555 None old_cache world0 after_match)
   \<and> holders (resolve roster three_groups 555 None old_cache world0 after_match) \<le> 8
   \<and> (\<exists>t. entities (resolve roster three_groups 555 None old_cache world0 after_match) 555
            = Some \<lparr>cached_data = Some (member 555), cached_at = t\<rparr>)
   \<and> resolved (resolve roster three_groups 555 None warm_cache world0 after_match)
       = Some (Some (member 555))
   \<and> probes (resolve roster three_groups 555 None warm_cache world0 after_match) = []
   \<and> wire (resolve roster three_groups 555 None warm_cache world0 after_match) = world0
   \<and> resolved (resolve roster three_groups 555 None old_cache world0 (until_match @ [Probe 0]))
       = None
   \<and> done_event (resolve roster three_groups 555 None old_cache world0 (until_match @ [Probe 0]))
   \<and> probes (resolve roster three_groups 555 None old_cache world0 (until_match @ [Probe 0]))
       = [Scanning [[member 13], [member 14]] None, Finished, Created]
   \<and> resolved (resolve roster three_groups 555 None old_cache world0
         ((until_match @ [Probe 0]) @ [Poll])) = Some (Some (member 555))
   \<and> probes (resolve roster three_groups 555 None old_cache world0
         ((until_match @ [Probe 0]) @ [Poll])) = [Finished, Finished, Finished]
   \<and> wire (resolve roster three_groups 555 None old_cache world0
         ((until_match @ [Probe 0]) @ [Poll]))
       = wire (resolve roster three_groups 555 None old_cache world0 (until_match @ [Probe 0]))
   \<and> \<not> done_event (resolve roster three_groups 555 None old_cache world0 [Probe 0])
   \<and> \<not> all_finished (resolve roster three_groups 555 None old_cache world0 [Probe 0])
   \<and> resolve roster three_groups 555 None old_cache world0 ([Probe 0] @ [Poll])
       = resolve roster three_groups 555 None old_cache world0 [Probe 0]
   \<and> resolved (resolve roster lonely_group 555 None old_cache world0 [Probe 0, Probe 0, Probe 0])
       = None
   \<and> \<not> done_event (resolve roster lonely_group 555 None old_cache world0 [Probe 0, Probe 0, Probe 0])
   \<and> all_finished (resolve roster lonely_group 555 None old_cache world0 [Probe 0, Probe 0, Probe 0])
   \<and> resolved (resolve roster lonely_group 555 None old_cache world0
         ([Probe 0, Probe 0, Probe 0] @ [Poll])) = Some None"
proof -
  have miss: "old_cache 555 = None" by (simp add: old_cache_def)
  note cold_call = resolver_race
    [of old_cache 555 roster three_groups None world0 after_match 1 "member 555"]
  note warm_call = resolver_race
    [of warm_cache 555 roster three_groups None world0 after_match 1 "member 555"]
  from cold_call miss after_match_returns
  have returned: "all_finished (resolve roster three_groups 555 None old_cache world0 after_match)"
    "holders (resolve roster three_groups 555 None old_cache world0 after_match) \<le> 8"
    "\<exists>t. entities (resolve roster three_groups 555 None old_cache world0 after_match) 555
            = Some \<lparr>cached_data = Some (member 555), cached_at = t\<rparr>"
    by (simp_all add: PARALLEL_LIMIT_def)
  from warm_call warm_cache_hit
  have cached: "resolved (resolve roster three_groups 555 None warm_cache world0 after_match)
       = Some (Some (member 555))"
    "probes (resolve roster three_groups 555 None warm_cache world0 after_match) = []"
    "wire (resolve roster three_groups 555 None warm_cache world0 after_match) = world0"
    by simp_all
  note matched = resolver_race
    [of old_cache 555 roster three_groups None world0 "until_match @ [Probe 0]" 1 "member 555",
     THEN conjunct2, rule_format, OF miss]
  have m1: "resolved (resolve roster three_groups 555 None old_cache world0 (until_match @ [Probe 0]))
       = None"
    and m2: "done_event (resolve roster three_groups 555 None old_cache world0 (until_match @ [Probe 0]))"
    and m3: "probes (resolve roster three_groups 555 None old_cache world0 (until_match @ [Probe 0]))
       = [Scanning [[member 13], [member 14]] None, Finished, Created]"
    and m4: "found_user (resolve roster three_groups 555 None old_cache world0 (until_match @ [Probe 0]))
       = Some (member 555)"
    by code_simp+
  note cancels = matched [THEN conjunct2, THEN conjunct2, THEN conjunct2, THEN conjunct2,
      THEN conjunct2, THEN conjunct2, THEN conjunct1, rule_format, OF conjI [OF m1 m2]]
  from cancels m3 m4
  have cancelled: "resolved (resolve roster three_groups 555 None old_cache world0
         ((until_match @ [Probe 0]) @ [Poll])) = Some (Some (member 555))"
    "probes (resolve roster three_groups 555 None old_cache world0
         ((until_match @ [Probe 0]) @ [Poll])) = [Finished, Finished, Finished]"
    "wire (resolve roster three_groups 555 None old_cache world0
         ((until_match @ [Probe 0]) @ [Poll]))
       = wire (resolve roster three_groups 555 None old_cache world0 (until_match @ [Probe 0]))"
    by simp_all
  note early = resolver_race
    [of old_cache 555 roster three_groups None world0 "[Probe 0]" 1 "member 555",
     THEN conjunct2, rule_format, OF miss]
  have e1: "\<not> done_event (resolve roster three_groups 555 None old_cache world0 [Probe 0])"
    and e2: "\<not> all_finished (resolve roster three_groups 555 None old_cache world0 [Probe 0])"
    by code_simp+
  note asleep = early [THEN conjunct2, THEN conjunct2, THEN conjunct2, THEN conjunct2,
      THEN conjunct2, THEN conjunct2, THEN conjunct2, THEN conjunct2, THEN conjunct1,
      rule_format, OF conjI [OF e1 e2]]
  note alone = resolver_race
    [of old_cache 555 roster lonely_group None world0 "[Probe 0, Probe 0, Probe 0]" 1 "member 555",
     THEN conjunct2, rule_format, OF miss]
  have v1: "resolved (resolve roster lonely_group 555 None old_cache world0 [Probe 0, Probe 0, Probe 0])
       = None"
    and v2: "\<not> done_event (resolve roster lonely_group 555 None old_cache world0 [Probe 0, Probe 0, Probe 0])"
    and v3: "all_finished (resolve roster lonely_group 555 None old_cache world0 [Probe 0, Probe 0, Probe 0])"
    by code_simp+
  note nobody = alone [THEN conjunct2, THEN conjunct2, THEN conjunct2, THEN conjunct2,
      THEN conjunct2, THEN conjunct2, THEN conjunct2, THEN conjunct1,
      rule_format, OF conjI [OF v1 conjI [OF v2 v3]], THEN conjunct1]
  show ?thesis
    by (intro conjI) (fact miss roster_steady roster_only_holder after_match_returns returned
        cached m1 m2 m3 cancelled e1 e2 asleep v1 v2 v3 nobody)+
qed

text \<open>
  The claim as the specification words it fails between the match and the next time the
  resolver wakes: the task of group 2 has recorded the match, and the task of group 1,
  which is inside its scan, runs and asks for its next page.
\<close>

theorem resolver_race_counterexample:
  "done_event (resolve roster three_groups 555 None old_cache world0 until_match)
   \<and> found_user (resolve roster three_groups 555 None old_cache world0 until_match)
       = Some (member 555)
   \<and> calls (wire (resolve roster three_groups 555 None old_cache world0 until_match))
       = [GetParticipantRequest 1 555, GetParticipantRequest 2 555, IterParticipants 1 2000]
   \<and> calls (wire (resolve roster three_groups 555 None old_cache world0 (until_match @ [Probe 0])))
       = [GetParticipantRequest 1 555, GetParticipantRequest 2 555, IterParticipants 1 2000,
          MoreParticipants 1]"
  by code_simp

end
